theory Spec2Isabelle
  imports Complex_Main
begin

section \<open>Speaker attribution: \<open>get_speaker_for_time\<close>\<close>

text \<open>
  The diarization output is iterated as pairs \<open>(turn, speaker)\<close>; a turn carries its
  \<open>start\<close> and \<open>end\<close> in seconds, as Python floats.
\<close>

record turn =
  turn_start :: real
  turn_end :: real

type_synonym diarization = "(turn \<times> string) list"

text \<open>
  \<open>speaker_time\<close> is a Python \<open>dict\<close>.  A dict iterates its keys in insertion order and
  an assignment to a key already present keeps the key's position, so the dict is an
  association list with distinct keys: \<open>dict_get\<close> is \<open>d.get(k, default)\<close> and
  \<open>dict_set\<close> is \<open>d[k] = v\<close>.
\<close>

type_synonym 'k pydict = "('k \<times> real) list"

fun dict_get :: "'k pydict \<Rightarrow> 'k \<Rightarrow> real \<Rightarrow> real" where
  "dict_get [] k dflt = dflt"
| "dict_get ((k', v') # kvs) k dflt = (if k' = k then v' else dict_get kvs k dflt)"

fun dict_set :: "'k pydict \<Rightarrow> 'k \<Rightarrow> real \<Rightarrow> 'k pydict" where
  "dict_set [] k v = [(k, v)]"
| "dict_set ((k', v') # kvs) k v =
     (if k' = k then (k', v) # kvs else (k', v') # dict_set kvs k v)"

definition dict_keys :: "'k pydict \<Rightarrow> 'k list" where
  "dict_keys d = map fst d"

text \<open>
  Python floats are IEEE 754 doubles.  A double is modelled by the real number it denotes;
  comparisons, \<open>max\<close> and \<open>min\<close> of doubles are exact, and a subtraction or an addition
  yields the exact result rounded to the nearest double, ties to the even mantissa.
  \<open>binade x\<close> is the exponent \<open>b\<close> with \<open>2^b \<le> x < 2^(b+1)\<close> for positive \<open>x\<close>, and a double
  has 53 significant bits.  The exponent range is not bounded in the model: overflow and
  subnormal numbers are out of reach of times counted in seconds.
\<close>

definition round_half_even :: "real \<Rightarrow> int" where
  "round_half_even z =
     (let f = \<lfloor>z\<rfloor>; r = z - of_int f
      in if r < 1 / 2 then f else if 1 / 2 < r then f + 1 else if even f then f else f + 1)"

fun bit_length :: "nat \<Rightarrow> nat" where
  "bit_length n = (if n = 0 then 0 else Suc (bit_length (n div 2)))"

declare bit_length.simps [simp del]

definition binade :: "real \<Rightarrow> int" where
  "binade x =
     (if 1 \<le> x then int (bit_length (nat \<lfloor>x\<rfloor>)) - 1
      else - int (bit_length (nat (\<lceil>1 / x\<rceil> - 1))))"

definition round_double :: "real \<Rightarrow> real" where
  "round_double x =
     (if x = 0 then 0
      else let e = binade \<bar>x\<bar> - 52
           in sgn x * of_int (round_half_even (\<bar>x\<bar> / 2 powi e)) * 2 powi e)"

definition fl_add :: "real \<Rightarrow> real \<Rightarrow> real" where
  "fl_add a b = round_double (a + b)"

definition fl_sub :: "real \<Rightarrow> real \<Rightarrow> real" where
  "fl_sub a b = round_double (a - b)"

text \<open>The body of the \<open>for turn, speaker in ...\<close> loop, lines 180 to 185.\<close>

definition accumulate_turn :: "real \<Rightarrow> real \<Rightarrow> string pydict \<Rightarrow> turn \<times> string \<Rightarrow> string pydict" where
  "accumulate_turn start end' speaker_time ts =
     (case ts of (turn, speaker) \<Rightarrow>
        let overlap_start = max (turn_start turn) start;
            overlap_end = min (turn_end turn) end'
        in if overlap_start < overlap_end
           then let duration = fl_sub overlap_end overlap_start
                in dict_set speaker_time speaker
                     (fl_add (dict_get speaker_time speaker 0) duration)
           else speaker_time)"

text \<open>The dict after the loop has run over all turns, starting from \<open>{}\<close>.\<close>

definition speaker_time_of :: "diarization \<Rightarrow> real \<Rightarrow> real \<Rightarrow> string pydict" where
  "speaker_time_of diarization start end' = foldl (accumulate_turn start end') [] diarization"

text \<open>
  \<open>max(iterable, key=f)\<close> keeps the first item and replaces it only by an item whose key
  is strictly greater.  The source iterates the dict, that is its keys in insertion order,
  with \<open>speaker_time.get\<close> as the key function; \<open>if not speaker_time\<close> is the case of
  no key.
\<close>

fun py_max_from :: "('a \<Rightarrow> real) \<Rightarrow> 'a \<Rightarrow> 'a list \<Rightarrow> 'a" where
  "py_max_from key best [] = best"
| "py_max_from key best (x # xs) =
     py_max_from key (if key x > key best then x else best) xs"

definition get_speaker_for_time :: "diarization \<Rightarrow> real \<Rightarrow> real \<Rightarrow> string" where
  "get_speaker_for_time diarization start end' =
     (let speaker_time = speaker_time_of diarization start end'
      in case dict_keys speaker_time of
           [] \<Rightarrow> ''Unknown Speaker''
         | k # ks \<Rightarrow> py_max_from (\<lambda>k. dict_get speaker_time k 0) k ks)"

text \<open>
  The specification's quantities: the overlap of one turn with the window, and the total
  for a speaker over all of that speaker's turns.
\<close>

definition overlap :: "turn \<Rightarrow> real \<Rightarrow> real \<Rightarrow> real" where
  "overlap t s e = max 0 (min (turn_end t) e - max (turn_start t) s)"

definition total_overlap :: "diarization \<Rightarrow> real \<Rightarrow> real \<Rightarrow> string \<Rightarrow> real" where
  "total_overlap d s e sp = sum_list (map (\<lambda>ts. overlap (fst ts) s e) (filter (\<lambda>ts. snd ts = sp) d))"

text \<open>
  What the source accumulates for a speaker: the rounded differences of that speaker's
  turns that pass the guard, added up from \<open>0\<close> in the order of the turns, each sum rounded.
\<close>

definition accumulated :: "diarization \<Rightarrow> real \<Rightarrow> real \<Rightarrow> string \<Rightarrow> real" where
  "accumulated d s e sp =
     foldl fl_add 0
       (map (\<lambda>ts. fl_sub (min (turn_end (fst ts)) e) (max (turn_start (fst ts)) s))
          (filter (\<lambda>ts. snd ts = sp \<and> max (turn_start (fst ts)) s < min (turn_end (fst ts)) e) d))"

text \<open>Concrete diarizations used to evaluate the function.\<close>

definition spec_example_turns :: diarization where
  "spec_example_turns =
     [(\<lparr>turn_start = 0, turn_end = 10\<rparr>, ''A''), (\<lparr>turn_start = 10, turn_end = 20\<rparr>, ''B'')]"

definition tied_turns :: diarization where
  "tied_turns =
     [(\<lparr>turn_start = 0, turn_end = 1\<rparr>, ''C''),
      (\<lparr>turn_start = 2, turn_end = 5\<rparr>, ''B''),
      (\<lparr>turn_start = 4, turn_end = 7\<rparr>, ''A''),
      (\<lparr>turn_start = 20, turn_end = 30\<rparr>, ''D'')]"

definition touching_turns :: diarization where
  "touching_turns =
     [(\<lparr>turn_start = 0, turn_end = 5\<rparr>, ''A''),
      (\<lparr>turn_start = 6, turn_end = 8\<rparr>, ''B''),
      (\<lparr>turn_start = 10, turn_end = 12\<rparr>, ''A'')]"

text \<open>
  Turn times written with two decimals; \<open>round_double\<close> of a decimal fraction is the double
  that the Python literal denotes.
\<close>

definition decimal_turns :: diarization where
  "decimal_turns =
     [(\<lparr>turn_start = round_double (16 / 100), turn_end = round_double (63 / 100)\<rparr>, ''A''),
      (\<lparr>turn_start = round_double (136 / 100), turn_end = round_double (379 / 100)\<rparr>, ''A''),
      (\<lparr>turn_start = round_double (385 / 100), turn_end = round_double (675 / 100)\<rparr>, ''B'')]"

section \<open>Transcript formatting: \<open>format_time\<close> and \<open>format_transcript\<close>\<close>

text \<open>
  Python's \<open>x // y\<close> and \<open>x % y\<close> on floats are the floor of the quotient and the
  remainder with the sign of the divisor; \<open>int(x)\<close> truncates towards zero.  Both
  operators raise \<open>ZeroDivisionError\<close> for \<open>y = 0\<close>; the source divides by the literals
  \<open>3600\<close> and \<open>60\<close> only.
\<close>

definition py_floordiv :: "real \<Rightarrow> real \<Rightarrow> real" where
  "py_floordiv x y = of_int \<lfloor>x / y\<rfloor>"

definition py_mod :: "real \<Rightarrow> real \<Rightarrow> real" where
  "py_mod x y = x - y * of_int \<lfloor>x / y\<rfloor>"

definition py_int :: "real \<Rightarrow> int" where
  "py_int x = (if 0 \<le> x then \<lfloor>x\<rfloor> else \<lceil>x\<rceil>)"

text \<open>
  Decimal rendering: \<open>str_int\<close> is \<open>f"{n}"\<close>, and \<open>format_02d\<close> is \<open>f"{n:02d}"\<close>, which pads
  with zeros to a width of two characters (a sign counts) and never cuts a longer number.
\<close>

definition digit_char :: "nat \<Rightarrow> char" where
  "digit_char n = ''0123456789'' ! (n mod 10)"

fun decimal :: "nat \<Rightarrow> string" where
  "decimal n = (if n < 10 then [digit_char n] else decimal (n div 10) @ [digit_char n])"

declare decimal.simps [simp del]

definition str_int :: "int \<Rightarrow> string" where
  "str_int n = (if n < 0 then CHR ''-'' # decimal (nat (- n)) else decimal (nat n))"

definition format_02d :: "int \<Rightarrow> string" where
  "format_02d n = (let s = str_int n in if length s < 2 then CHR ''0'' # s else s)"

definition format_time :: "real \<Rightarrow> string" where
  "format_time seconds =
     (let hours = py_int (py_floordiv seconds 3600);
          minutes = py_int (py_floordiv (py_mod seconds 3600) 60);
          secs = py_int (py_mod seconds 60)
      in format_02d hours @ '':'' @ format_02d minutes @ '':'' @ format_02d secs)"

text \<open>
  A segment of the merged transcript is the dict \<open>{"speaker", "start", "end", "text"}\<close> built
  by \<open>transcribe_with_speakers\<close>.
\<close>

record segment =
  seg_speaker :: string
  seg_start :: real
  seg_end :: real
  seg_text :: string

abbreviation NL :: string where
  "NL \<equiv> [CHR 0x0A]"

definition banner :: string where
  "banner = replicate 70 (CHR ''='')"

text \<open>
  The body of the \<open>for seg in segments\<close> loop, lines 201 to 212, on the two local variables
  \<open>output\<close> and \<open>current_speaker\<close> (\<open>None\<close> before the first segment).
\<close>

definition format_segment :: "string \<times> string option \<Rightarrow> segment \<Rightarrow> string \<times> string option" where
  "format_segment st seg =
     (case st of (output, current_speaker) \<Rightarrow>
        let speaker = seg_speaker seg;
            text = seg_text seg;
            timestamp = format_time (seg_start seg);
            st' = (if Some speaker \<noteq> current_speaker
                   then let output1 = (if current_speaker \<noteq> None then output @ NL else output);
                            output2 = output1 @ ''['' @ timestamp @ ''] '' @ speaker @ '':'' @ NL
                        in (output2, Some speaker)
                   else (output, current_speaker))
        in (fst st' @ ''  '' @ text @ NL, snd st'))"

definition format_transcript :: "segment list \<Rightarrow> int \<Rightarrow> string" where
  "format_transcript segments segment_num =
     (let output0 = NL @ banner @ NL;
          output1 = output0 @ ''SEGMENT '' @ str_int segment_num @ NL;
          output2 = output1 @ banner @ NL @ NL;
          st = foldl format_segment (output2, None) segments
      in fst st @ NL)"

text \<open>
  The nested function is a closure of \<open>record_and_transcribe_with_diarization\<close>.  The
  variables of the enclosing call that its sibling closures read and write, and the master
  file they append to, form the session state; a call of \<open>format_transcript\<close> is a step on
  that state.  Its body names its two parameters, its locals and \<open>format_time\<close> only (the
  parameter \<open>segment_num\<close> shadows the enclosing variable), so the step returns the state
  as it found it.
\<close>

record session =
  sess_mlx_model_path :: string
  sess_session_dir :: string
  sess_master_file :: string
  sess_master_file_contents :: string
  sess_segment_num :: int
  sess_is_recording :: bool


text \<open>
  The specification's reading of the output: the header of a block, the line of a segment,
  and what the segment at position \<open>i\<close> adds, where a block starts at position \<open>0\<close> and at
  every position whose speaker differs from the speaker just before.
\<close>

definition block_header :: "segment \<Rightarrow> string" where
  "block_header seg = ''['' @ format_time (seg_start seg) @ ''] '' @ seg_speaker seg @ '':'' @ NL"

definition text_line :: "segment \<Rightarrow> string" where
  "text_line seg = ''  '' @ seg_text seg @ NL"

definition starts_block :: "segment list \<Rightarrow> nat \<Rightarrow> bool" where
  "starts_block segments i =
     (i = 0 \<or> seg_speaker (segments ! i) \<noteq> seg_speaker (segments ! (i - 1)))"

definition rendered_at :: "segment list \<Rightarrow> nat \<Rightarrow> string" where
  "rendered_at segments i =
     (if starts_block segments i
      then (if i = 0 then [] else NL) @ block_header (segments ! i) @ text_line (segments ! i)
      else text_line (segments ! i))"

definition preamble :: "int \<Rightarrow> string" where
  "preamble segment_num =
     NL @ banner @ NL @ ''SEGMENT '' @ str_int segment_num @ NL @ banner @ NL @ NL"

definition spec_example_segments :: "real \<Rightarrow> real \<Rightarrow> real \<Rightarrow> segment list" where
  "spec_example_segments e1 e2 e3 =
     [\<lparr>seg_speaker = ''A'', seg_start = 0, seg_end = e1, seg_text = ''hi''\<rparr>,
      \<lparr>seg_speaker = ''A'', seg_start = 2, seg_end = e2, seg_text = ''there''\<rparr>,
      \<lparr>seg_speaker = ''B'', seg_start = 5, seg_end = e3, seg_text = ''hello''\<rparr>]"

definition unsorted_segments :: "segment list" where
  "unsorted_segments =
     [\<lparr>seg_speaker = ''A'', seg_start = 5, seg_end = 6, seg_text = ''one''\<rparr>,
      \<lparr>seg_speaker = ''B'', seg_start = 0, seg_end = 1, seg_text = ''two''\<rparr>,
      \<lparr>seg_speaker = ''A'', seg_start = 2, seg_end = 3, seg_text = ''three''\<rparr>]"

section \<open>The recording session\<close>

text \<open>
  The recording functions talk to the terminal, the file system, the audio device and the
  diarization library.  Their run is modelled as the list of these effects in the order
  the main thread performs them.  Printed text is a list of bytes; the symbols outside
  ASCII that the messages contain are given by their UTF-8 bytes.
\<close>

datatype event =
    Print string
  | FromPretrained string string
  | PipelineTo string
  | MakeDirs string
  | WriteFile string string
  | OpenStream
  | StreamRead string
  | WavWrite string string
  | ThreadStart string string int
  | StopStream
  | CloseStream
  | Terminate

abbreviation apostrophe :: string where
  "apostrophe \<equiv> [CHR 0x27]"

abbreviation sym_cycle :: string where
  "sym_cycle \<equiv> [CHR 0xF0, CHR 0x9F, CHR 0x94, CHR 0x84]"

abbreviation sym_cross :: string where
  "sym_cross \<equiv> [CHR 0xE2, CHR 0x9D, CHR 0x8C]"

abbreviation sym_check :: string where
  "sym_check \<equiv> [CHR 0xE2, CHR 0x9C, CHR 0x85]"

abbreviation sym_warning :: string where
  "sym_warning \<equiv> [CHR 0xE2, CHR 0x9A, CHR 0xA0, CHR 0xEF, CHR 0xB8, CHR 0x8F]"

abbreviation sym_microphone :: string where
  "sym_microphone \<equiv> [CHR 0xF0, CHR 0x9F, CHR 0x8E, CHR 0xA4]"

abbreviation sym_bulb :: string where
  "sym_bulb \<equiv> [CHR 0xF0, CHR 0x9F, CHR 0x92, CHR 0xA1]"

abbreviation sym_red_circle :: string where
  "sym_red_circle \<equiv> [CHR 0xF0, CHR 0x9F, CHR 0x94, CHR 0xB4]"

abbreviation sym_sparkles :: string where
  "sym_sparkles \<equiv> [CHR 0xE2, CHR 0x9C, CHR 0xA8]"

abbreviation sym_folder :: string where
  "sym_folder \<equiv> [CHR 0xF0, CHR 0x9F, CHR 0x93, CHR 0x81]"

abbreviation sym_page :: string where
  "sym_page \<equiv> [CHR 0xF0, CHR 0x9F, CHR 0x93, CHR 0x84]"

text \<open>
  What the run reads from outside: the environment variable \<open>HF_TOKEN\<close>, the outcome of
  the check for the Metal device (which may raise; the source catches it), whether the
  directory \<open>transcriptions\<close> exists, the two readings of \<open>datetime.now()\<close>, the clock,
  the microphone and the moment of the interrupt.  The clock is the sequence of the values
  that the successive calls of \<open>time.time()\<close> return, the microphone the sequence of the
  chunks that the successive calls of \<open>stream.read\<close> return.  A session is stopped by
  \<open>KeyboardInterrupt\<close>, which can reach the main thread anywhere in the loop: the world gives
  the number of effects of the loop (a line printed, a chunk read and appended, a WAV file
  written and closed, a thread started) that are completed before it is raised.  The
  writing of one WAV file, from \<open>wave.open\<close> to \<open>close\<close>, is one effect.  The load of the
  pipeline and the file-system and device calls are taken to succeed, and the interrupt is
  taken to arrive while the loop runs.
\<close>

datatype mps_check = MpsAvailable | MpsUnavailable | MpsRaises string

record world =
  hf_token :: "string option"
  mps :: mps_check
  transcriptions_exists :: bool
  session_timestamp :: string
  header_timestamp :: string
  clock_readings :: "nat \<Rightarrow> real"
  microphone :: "nat \<Rightarrow> string"
  interrupt_after :: nat

text \<open>\<open>f"{n:03d}"\<close>: zeros after the sign up to a width of three characters.\<close>

definition format_03d :: "int \<Rightarrow> string" where
  "format_03d n =
     (if n < 0
      then CHR ''-'' # replicate (2 - length (decimal (nat (- n)))) (CHR ''0'') @ decimal (nat (- n))
      else replicate (3 - length (decimal (nat n))) (CHR ''0'') @ decimal (nat n))"

definition segment_wav :: "string \<Rightarrow> int \<Rightarrow> string" where
  "segment_wav session_dir segment_num =
     session_dir @ ''/segment_'' @ format_03d segment_num @ ''.wav''"

definition recording_line :: "int \<Rightarrow> string" where
  "recording_line segment_num =
     NL @ sym_red_circle @ '' Recording segment '' @ str_int segment_num @ ''...''"

definition completed_line :: string where
  "completed_line = NL @ sym_check @ '' Recording completed''"

text \<open>
  The inner loop \<open>while time.time() - segment_start < SEGMENT_SECONDS and is_recording\<close>.
  \<open>is_recording\<close> is \<open>True\<close> whenever the condition is evaluated: its only assignment after
  the initialisation is in the handler of \<open>KeyboardInterrupt\<close>, outside both loops.  \<open>k\<close>
  counts the calls of \<open>time.time()\<close> and \<open>i\<close> the chunks read so far; \<open>budget\<close> is the
  number of effects still to complete before the interrupt.  The loop ends with the frames
  of a segment whose time has elapsed, or it is left by the interrupt with the frames read
  so far.
\<close>

datatype capture =
    Elapsed "string list" nat nat nat
  | Interrupted "string list"

fun record_segment ::
    "(nat \<Rightarrow> real) \<Rightarrow> real \<Rightarrow> real \<Rightarrow> nat \<Rightarrow> (nat \<Rightarrow> string) \<Rightarrow> nat \<Rightarrow> string list \<Rightarrow> nat
      \<Rightarrow> capture" where
  "record_segment clock SEGMENT_SECONDS segment_start k mic i frames 0 =
     (if fl_sub (clock k) segment_start < SEGMENT_SECONDS then Interrupted frames
      else Elapsed frames (Suc k) i 0)"
| "record_segment clock SEGMENT_SECONDS segment_start k mic i frames (Suc budget) =
     (if fl_sub (clock k) segment_start < SEGMENT_SECONDS
      then record_segment clock SEGMENT_SECONDS segment_start (Suc k) mic (Suc i)
             (frames @ [mic i]) budget
      else Elapsed frames (Suc k) i (Suc budget))"

lemma record_segment_budget:
  "record_segment clock SEGMENT_SECONDS segment_start k mic i frames0 budget =
     Elapsed frames k' i' budget' \<Longrightarrow> budget' \<le> budget"
  by (induction clock SEGMENT_SECONDS segment_start k mic i frames0 budget
      rule: record_segment.induct) (auto split: if_splits)

text \<open>
  The main recording loop, the same in \<open>transcript-by-segment.py\<close> and in
  \<open>transcript-with-diarization.py\<close> but for the target of the thread and its arguments
  (the first script also passes the model's path).  The whole body is inside the \<open>try\<close>
  block: wherever the interrupt arrives, the statements that remain (the reads, the save,
  the start of the thread) are skipped and the handler prints its line.
\<close>

function record_loop ::
    "string \<Rightarrow> string \<Rightarrow> real \<Rightarrow> (nat \<Rightarrow> real) \<Rightarrow> (nat \<Rightarrow> string) \<Rightarrow> nat \<Rightarrow> nat \<Rightarrow> int \<Rightarrow> nat
      \<Rightarrow> event list" where
  "record_loop target session_dir SEGMENT_SECONDS clock mic k i segment_num budget =
     (case budget of
        0 \<Rightarrow> [Print completed_line]
      | Suc budget1 \<Rightarrow>
          Print (recording_line segment_num) #
          (case record_segment clock SEGMENT_SECONDS (clock k) (Suc k) mic i [] budget1 of
             Interrupted frames \<Rightarrow> map StreamRead frames @ [Print completed_line]
           | Elapsed frames k' i' budget2 \<Rightarrow>
               if frames = [] then []
               else map StreamRead frames @
                    (case budget2 of
                       0 \<Rightarrow> [Print completed_line]
                     | Suc budget3 \<Rightarrow>
                         WavWrite (segment_wav session_dir segment_num) (concat frames) #
                         (case budget3 of
                            0 \<Rightarrow> [Print completed_line]
                          | Suc budget4 \<Rightarrow>
                              ThreadStart target (segment_wav session_dir segment_num)
                                segment_num #
                              record_loop target session_dir SEGMENT_SECONDS clock mic k' i'
                                (segment_num + 1) budget4))))"
  by pat_completeness auto
termination
proof (relation "measure (\<lambda>(target, session_dir, SEGMENT_SECONDS, clock, mic, k, i, segment_num,
    budget). budget)")
  show "wf (measure (\<lambda>(target, session_dir, SEGMENT_SECONDS, clock, mic, k, i, segment_num,
    budget). budget))"
    by simp
next
  fix target session_dir :: string and SEGMENT_SECONDS :: real and clock :: "nat \<Rightarrow> real"
    and mic :: "nat \<Rightarrow> string" and k i k' i' budget budget1 budget2 budget3 budget4 :: nat
    and segment_num :: int and frames :: "string list"
  assume "budget = Suc budget1"
    and "record_segment clock SEGMENT_SECONDS (clock k) (Suc k) mic i [] budget1 =
      Elapsed frames k' i' budget2"
    and "budget2 = Suc budget3" and "budget3 = Suc budget4"
  then have "budget4 < budget"
    using record_segment_budget [of clock SEGMENT_SECONDS "clock k" "Suc k" mic i "[]" budget1
        frames k' i' budget2] by simp
  then show "((target, session_dir, SEGMENT_SECONDS, clock, mic, k', i', segment_num + 1, budget4),
              (target, session_dir, SEGMENT_SECONDS, clock, mic, k, i, segment_num, budget))
             \<in> measure (\<lambda>(target, session_dir, SEGMENT_SECONDS, clock, mic, k, i, segment_num,
                  budget). budget)"
    by simp
qed

declare record_loop.simps [simp del]

text \<open>The report printed when the token is missing, lines 59 to 63.\<close>

definition missing_token_report :: "event list" where
  "missing_token_report =
     [Print (NL @ sym_cross @ '' ERROR: HuggingFace token not found!''),
      Print ''   1. Get token: https://huggingface.co/settings/tokens'',
      Print ''   2. Accept terms: https://huggingface.co/pyannote/speaker-diarization-3.1'',
      Print ''   3. Create a .env file in your project root with:'',
      Print (''      HF_TOKEN=your_token_here'' @ NL)]"

definition master_header :: "string \<Rightarrow> string \<Rightarrow> string" where
  "master_header model_size stamp =
     banner @ NL @ ''TRANSCRIPTION SESSION WITH SPEAKER DIARIZATION'' @ NL @ stamp @ NL
       @ ''Model: '' @ model_size @ '' (MLX Whisper + Pyannote)'' @ NL @ banner @ NL @ NL"

text \<open>
  \<open>record_and_transcribe_with_diarization\<close>, main thread.  \<open>if not HF_TOKEN\<close> holds for a
  variable that is not set and for one set to the empty string.
\<close>

definition record_and_transcribe_with_diarization :: "string \<Rightarrow> int \<Rightarrow> world \<Rightarrow> event list" where
  "record_and_transcribe_with_diarization model_size segment_minutes w =
     (let SEGMENT_SECONDS = real_of_int (segment_minutes * 60) in
      [Print (sym_cycle @ '' Using MLX Whisper '' @ apostrophe @ model_size @ apostrophe
                @ '' (Apple Silicon optimized)...''),
       Print (sym_cycle @ '' Loading diarization model...'')] @
      (case hf_token w of
         None \<Rightarrow> missing_token_report
       | Some HF_TOKEN \<Rightarrow>
           if HF_TOKEN = [] then missing_token_report
           else
             let session_dir = ''transcriptions/session_'' @ session_timestamp w;
                 master_file = session_dir @ ''/transcription_complete.txt''
             in [FromPretrained ''pyannote/speaker-diarization-3.0'' HF_TOKEN] @
                (case mps w of
                   MpsAvailable \<Rightarrow>
                     [PipelineTo ''mps'',
                      Print (sym_check @ '' Using Apple Silicon GPU (MPS) for diarization'')]
                 | MpsUnavailable \<Rightarrow> []
                 | MpsRaises e \<Rightarrow>
                     [Print (sym_warning @ ''  Running diarization on CPU: '' @ e)]) @
                (if \<not> transcriptions_exists w then [MakeDirs ''transcriptions''] else []) @
                [MakeDirs session_dir,
                 WriteFile master_file (master_header model_size (header_timestamp w)),
                 OpenStream,
                 Print (NL @ sym_microphone @ '' Recording in progress (''
                          @ str_int segment_minutes @ '' min segments)...''),
                 Print (sym_bulb @ '' Press Ctrl+C to stop'' @ NL)] @
                record_loop ''transcribe_with_speakers'' session_dir SEGMENT_SECONDS
                  (clock_readings w) (microphone w) 0 0 1 (interrupt_after w) @
                [StopStream, CloseStream, Terminate,
                 Print (NL @ sym_sparkles @ '' Session completed!''),
                 Print (sym_folder @ '' Directory: '' @ session_dir),
                 Print (sym_page @ '' Transcription: '' @ master_file),
                 Print (sym_bulb @ '' JSON files available for advanced analysis'')]))"

text \<open>
  Reading a run: the chunks read from the microphone, the contents of the WAV files
  written, and the events of a segment that was recorded to its end, saved and handed to
  its thread.
\<close>

fun stream_reads :: "event list \<Rightarrow> string list" where
  "stream_reads [] = []"
| "stream_reads (StreamRead data # tr) = data # stream_reads tr"
| "stream_reads (ev # tr) = stream_reads tr"

fun wav_written :: "event list \<Rightarrow> string list" where
  "wav_written [] = []"
| "wav_written (WavWrite audio_file bytes # tr) = bytes # wav_written tr"
| "wav_written (ev # tr) = wav_written tr"

definition segment_events :: "string \<Rightarrow> string \<Rightarrow> int \<Rightarrow> string list \<Rightarrow> event list" where
  "segment_events target session_dir segment_num frames =
     Print (recording_line segment_num) # map StreamRead frames @
     [WavWrite (segment_wav session_dir segment_num) (concat frames),
      ThreadStart target (segment_wav session_dir segment_num) segment_num]"

fun completed_events :: "string \<Rightarrow> string \<Rightarrow> int \<Rightarrow> string list list \<Rightarrow> event list" where
  "completed_events target session_dir segment_num [] = []"
| "completed_events target session_dir segment_num (frames # rest) =
     segment_events target session_dir segment_num frames @
     completed_events target session_dir (segment_num + 1) rest"

text \<open>
  The timing of a segment that starts with the clock's reading number \<open>k\<close>: its first \<open>n\<close>
  checks pass, so that \<open>n\<close> chunks are read, and the check after \<open>n\<close> reads fails, so that
  the segment has elapsed.  A list of completed segments is in order when each has at least
  one frame, its frames are the microphone's next chunks, it was read while its checks
  passed and ended when its time had elapsed, and the next one starts after it.
\<close>

definition reads_pass :: "(nat \<Rightarrow> real) \<Rightarrow> real \<Rightarrow> nat \<Rightarrow> nat \<Rightarrow> bool" where
  "reads_pass clock SEGMENT_SECONDS k n =
     (\<forall>j<n. fl_sub (clock (Suc k + j)) (clock k) < SEGMENT_SECONDS)"

definition elapsed_at :: "(nat \<Rightarrow> real) \<Rightarrow> real \<Rightarrow> nat \<Rightarrow> nat \<Rightarrow> bool" where
  "elapsed_at clock SEGMENT_SECONDS k n =
     (\<not> fl_sub (clock (Suc k + n)) (clock k) < SEGMENT_SECONDS)"

fun completed_ok ::
    "(nat \<Rightarrow> real) \<Rightarrow> real \<Rightarrow> (nat \<Rightarrow> string) \<Rightarrow> nat \<Rightarrow> nat \<Rightarrow> string list list \<Rightarrow> bool" where
  "completed_ok clock SEGMENT_SECONDS mic k i [] = True"
| "completed_ok clock SEGMENT_SECONDS mic k i (frames # rest) =
     (frames \<noteq> [] \<and> frames = map mic [i..<i + length frames] \<and>
      reads_pass clock SEGMENT_SECONDS k (length frames) \<and>
      elapsed_at clock SEGMENT_SECONDS k (length frames) \<and>
      completed_ok clock SEGMENT_SECONDS mic (k + length frames + 2) (i + length frames) rest)"

fun next_clock :: "nat \<Rightarrow> string list list \<Rightarrow> nat" where
  "next_clock k [] = k"
| "next_clock k (frames # rest) = next_clock (k + length frames + 2) rest"

text \<open>
  How a run ends: interrupted before the announcement of a segment; interrupted while the
  segment is recorded or before its WAV file is written, the frames read being dropped;
  interrupted after the WAV file is written and before the thread is started; or left by
  \<open>break\<close> because the time of a segment has elapsed before its first read.
\<close>

datatype ending =
    BeforeAnnouncement
  | FramesDropped "string list"
  | SavedNotStarted "string list"
  | EmptySegment

fun ending_events :: "string \<Rightarrow> int \<Rightarrow> ending \<Rightarrow> event list" where
  "ending_events session_dir segment_num BeforeAnnouncement = [Print completed_line]"
| "ending_events session_dir segment_num (FramesDropped frames) =
     Print (recording_line segment_num) # map StreamRead frames @ [Print completed_line]"
| "ending_events session_dir segment_num (SavedNotStarted frames) =
     Print (recording_line segment_num) # map StreamRead frames @
     [WavWrite (segment_wav session_dir segment_num) (concat frames), Print completed_line]"
| "ending_events session_dir segment_num EmptySegment = [Print (recording_line segment_num)]"

fun ending_ok ::
    "(nat \<Rightarrow> real) \<Rightarrow> real \<Rightarrow> (nat \<Rightarrow> string) \<Rightarrow> nat \<Rightarrow> nat \<Rightarrow> ending \<Rightarrow> bool" where
  "ending_ok clock SEGMENT_SECONDS mic k i BeforeAnnouncement = True"
| "ending_ok clock SEGMENT_SECONDS mic k i (FramesDropped frames) =
     (frames = map mic [i..<i + length frames] \<and>
      reads_pass clock SEGMENT_SECONDS k (length frames))"
| "ending_ok clock SEGMENT_SECONDS mic k i (SavedNotStarted frames) =
     (frames \<noteq> [] \<and> frames = map mic [i..<i + length frames] \<and>
      reads_pass clock SEGMENT_SECONDS k (length frames) \<and>
      elapsed_at clock SEGMENT_SECONDS k (length frames))"
| "ending_ok clock SEGMENT_SECONDS mic k i EmptySegment = elapsed_at clock SEGMENT_SECONDS k 0"

fun dropped_frames :: "ending \<Rightarrow> string list" where
  "dropped_frames (FramesDropped frames) = frames"
| "dropped_frames other = []"

definition example_mic :: "nat \<Rightarrow> string" where
  "example_mic i = (if i = 0 then ''a'' else if i = 1 then ''b'' else if i = 2 then ''c'' else ''d'')"

definition example_world :: world where
  "example_world =
     \<lparr>hf_token = Some ''hf_abc'', mps = MpsUnavailable, transcriptions_exists = True,
      session_timestamp = ''20250101_120000'', header_timestamp = ''2025-01-01 12:00:00'',
      clock_readings = (\<lambda>k. 20 * real k), microphone = example_mic, interrupt_after = 7\<rparr>"

section \<open>Batch transcription: \<open>whipser-mp3.py\<close>\<close>









section \<open>Rounding to the nearest double\<close>

lemma bit_length_pos: "0 < n \<Longrightarrow> \<exists>m. bit_length n = Suc m"
  by (simp add: bit_length.simps [of n])

lemma bit_length_bounds:
  "bit_length n = Suc m \<Longrightarrow> (2::nat) ^ m \<le> n \<and> n < 2 ^ Suc m"
proof (induction n arbitrary: m rule: bit_length.induct)
  case (1 n)
  have n0: "n \<noteq> 0" using 1(2) by (auto simp: bit_length.simps [of n] split: if_splits)
  then have b: "bit_length (n div 2) = m" using 1(2) by (simp add: bit_length.simps [of n])
  show ?case
  proof (cases m)
    case 0
    then have "n div 2 = 0" using b by (auto simp: bit_length.simps [of "n div 2"] split: if_splits)
    then have "n = 1" using n0 by presburger
    then show ?thesis using 0 by simp
  next
    case (Suc k)
    from 1(1) [OF n0 b [unfolded Suc]] have
      ih: "(2::nat) ^ k \<le> n div 2" "n div 2 < 2 ^ Suc k" by simp_all
    have "2 * (2::nat) ^ k \<le> 2 * (n div 2)" using ih(1) by simp
    moreover have "2 * (n div 2) \<le> n" by simp
    moreover have "n div 2 + 1 \<le> 2 ^ Suc k" using ih(2) by simp
    then have "2 * (n div 2) + 2 \<le> 2 * 2 ^ Suc k" by simp
    moreover have "n < 2 * (n div 2) + 2" by presburger
    ultimately show ?thesis unfolding Suc by simp
  qed
qed

lemma bit_length_bounds_real:
  assumes "bit_length n = Suc m"
  shows "(2::real) ^ m \<le> real n" and "real n + 1 \<le> (2::real) ^ Suc m"
proof -
  from bit_length_bounds [OF assms] have l: "(2::nat) ^ m \<le> n" and u: "n + 1 \<le> 2 ^ Suc m"
    by simp_all
  have "real ((2::nat) ^ m) \<le> real n" using l by (rule of_nat_mono)
  then show "(2::real) ^ m \<le> real n" by (simp only: of_nat_power of_nat_numeral)
  have "real (n + 1) \<le> real ((2::nat) ^ Suc m)" using u by (rule of_nat_mono)
  then show "real n + 1 \<le> (2::real) ^ Suc m"
    by (simp only: of_nat_power of_nat_numeral of_nat_add of_nat_1)
qed

lemma binade_bounds:
  assumes "0 < x"
  shows "2 powi binade x \<le> x" and "x < 2 powi (binade x + 1)"
proof -
  have "2 powi binade x \<le> x \<and> x < 2 powi (binade x + 1)"
  proof (cases "1 \<le> x")
    case True
    define n where "n = nat \<lfloor>x\<rfloor>"
    have n: "0 < n" "real n \<le> x" "x < real n + 1" using True unfolding n_def by linarith+
    obtain m where m: "bit_length n = Suc m" using bit_length_pos [OF n(1)] by blast
    note r = bit_length_bounds_real [OF m]
    have b: "binade x = int m" using True by (simp add: binade_def n_def [symmetric] m)
    have b1: "binade x + 1 = int (Suc m)" unfolding b by simp
    have "(2::real) ^ m \<le> x" using r(1) n(2) by linarith
    moreover have "x < (2::real) ^ Suc m" using r(2) n(3) by linarith
    ultimately show ?thesis unfolding b1 unfolding b power_int_of_nat by blast
  next
    case False
    define y where "y = 1 / x"
    have y: "1 < y" using False assms unfolding y_def by simp
    define n where "n = nat (\<lceil>y\<rceil> - 1)"
    have c: "real_of_int \<lceil>y\<rceil> - 1 < y" "y \<le> real_of_int \<lceil>y\<rceil>" by linarith+
    have c2: "2 \<le> \<lceil>y\<rceil>" using y c(2) by linarith
    have n: "0 < n" "real n = real_of_int \<lceil>y\<rceil> - 1" using c2 unfolding n_def by simp_all
    obtain m where m: "bit_length n = Suc m" using bit_length_pos [OF n(1)] by blast
    note r = bit_length_bounds_real [OF m]
    have b: "binade x = - int (Suc m)"
      using False by (simp add: binade_def y_def [symmetric] n_def [symmetric] m)
    have b1: "binade x + 1 = - int m" unfolding b by simp
    have ylo: "(2::real) ^ m < y" using r(1) n(2) c(1) by linarith
    have yhi: "y \<le> (2::real) ^ Suc m" using r(2) n(2) c(2) by linarith
    have x: "x = 1 / y" using assms unfolding y_def by simp
    have "1 / (2::real) ^ Suc m \<le> 1 / y"
      using yhi y by (intro divide_left_mono) simp_all
    then have lo: "2 powi (- int (Suc m)) \<le> x"
      unfolding x power_int_minus_divide power_int_of_nat .
    have "0 < y * (2::real) ^ m" using y by simp
    then have "1 / y < 1 / (2::real) ^ m"
      using ylo by (intro divide_strict_left_mono) simp_all
    then have hi: "x < 2 powi (- int m)"
      unfolding x power_int_minus_divide power_int_of_nat .
    show ?thesis unfolding b1 unfolding b using lo hi by blast
  qed
  then show "2 powi binade x \<le> x" and "x < 2 powi (binade x + 1)" by simp_all
qed

lemma pow2_less_cancel: "(2::real) powi a < 2 powi b \<Longrightarrow> a < b"
proof (rule ccontr)
  assume l: "(2::real) powi a < 2 powi b" and "\<not> a < b"
  then have "b \<le> a" by simp
  then have "(2::real) powi b \<le> 2 powi a" by (rule power_int_increasing) simp
  with l show False by linarith
qed

lemma binade_unique:
  assumes "0 < x" and "2 powi b \<le> x" and "x < 2 powi (b + 1)"
  shows "binade x = b"
proof (rule antisym)
  have "(2::real) powi binade x < 2 powi (b + 1)"
    using binade_bounds(1) [OF assms(1)] assms(3) by linarith
  then have "binade x < b + 1" by (rule pow2_less_cancel)
  then show "binade x \<le> b" by simp
next
  have "(2::real) powi b < 2 powi (binade x + 1)"
    using binade_bounds(2) [OF assms(1)] assms(2) by linarith
  then have "b < binade x + 1" by (rule pow2_less_cancel)
  then show "b \<le> binade x" by simp
qed

lemma round_half_even_ge_floor: "\<lfloor>z\<rfloor> \<le> round_half_even z"
  by (simp add: round_half_even_def Let_def)

lemma round_half_even_of_int: "round_half_even (of_int n) = n"
  by (simp add: round_half_even_def Let_def)

lemma scaled_mantissa_ge:
  assumes "0 < x"
  shows "2 ^ 52 \<le> x / 2 powi (binade x - 52)"
proof -
  have "(2::real) powi (binade x - 52) * 2 ^ 52 = 2 powi binade x"
    by (simp add: power_int_diff)
  then have "2 powi (binade x - 52) * 2 ^ 52 \<le> x"
    using binade_bounds(1) [OF assms] by simp
  then show ?thesis by (simp add: pos_le_divide_eq mult.commute)
qed

lemma round_double_pos:
  assumes "0 < x"
  shows "0 < round_double x"
proof -
  define e where "e = binade x - 52"
  have "(2::real) ^ 52 \<le> x / 2 powi e" unfolding e_def by (rule scaled_mantissa_ge [OF assms])
  then have "(2::int) ^ 52 \<le> \<lfloor>x / 2 powi e\<rfloor>" by (simp add: le_floor_iff)
  moreover have "(0::int) < 2 ^ 52" by simp
  ultimately have "0 < round_half_even (x / 2 powi e)"
    using round_half_even_ge_floor [of "x / 2 powi e"] by linarith
  then have "0 < real_of_int (round_half_even (x / 2 powi e)) * 2 powi e" by simp
  then show ?thesis using assms by (simp add: round_double_def e_def Let_def)
qed

lemma fl_sub_pos: "b < a \<Longrightarrow> 0 < fl_sub a b"
  by (simp add: fl_sub_def round_double_pos)

lemma fl_add_pos: "0 \<le> a \<Longrightarrow> 0 < b \<Longrightarrow> 0 < fl_add a b"
  by (simp add: fl_add_def round_double_pos)

lemma round_double_eval:
  assumes "0 < x" and "2 powi b \<le> x" and "x < 2 powi (b + 1)"
  shows "round_double x = of_int (round_half_even (x / 2 powi (b - 52))) * 2 powi (b - 52)"
proof -
  have b: "binade x = b" using assms by (rule binade_unique)
  have a: "\<bar>x\<bar> = x" "sgn x = 1" "x \<noteq> 0" using assms(1) by simp_all
  show ?thesis unfolding round_double_def Let_def a b using a(3) by simp
qed

lemma round_double_of_nat:
  assumes "0 < n" and "n < 2 ^ 53"
  shows "round_double (real n) = real n"
proof -
  define x where "x = real n"
  have x0: "0 < x" using assms(1) unfolding x_def by simp
  have "real n < real ((2::nat) ^ 53)" using assms(2) by (rule of_nat_less_iff [THEN iffD2])
  then have "x < (2::real) ^ 53" unfolding x_def by (simp only: of_nat_power of_nat_numeral)
  then have x1: "x < 2 powi 53" by simp
  have "(2::real) powi binade x < 2 powi 53" using binade_bounds(1) [OF x0] x1 by linarith
  then have "binade x < 53" by (rule pow2_less_cancel)
  then have "0 \<le> 52 - binade x" by simp
  then obtain k where k0: "52 - binade x = int k" using nonneg_int_cases by blast
  then have k: "binade x - 52 = - int k" by simp
  have p: "(2::real) powi (- int k) = 1 / 2 ^ k" by (simp add: power_int_minus_divide)
  have "x / (1 / 2 ^ k) = of_int (int n * 2 ^ k)" unfolding x_def by simp
  then have "round_half_even (x / (1 / 2 ^ k)) = int n * 2 ^ k"
    by (simp only: round_half_even_of_int)
  then have "of_int (round_half_even (x / (1 / 2 ^ k))) * (1 / 2 ^ k) = x"
    unfolding x_def by simp
  moreover have a: "\<bar>x\<bar> = x" "sgn x = 1" "x \<noteq> 0" using x0 by simp_all
  ultimately show ?thesis unfolding x_def [symmetric] round_double_def Let_def a k p
    using a(3) by simp
qed

lemma round_double_numeral:
  "numeral w < (2::nat) ^ 53 \<Longrightarrow> round_double (numeral w) = numeral w"
  using round_double_of_nat [of "numeral w"] by simp

lemma round_double_0: "round_double 0 = 0"
  by (simp add: round_double_def)

lemma round_double_1: "round_double 1 = 1"
  using round_double_of_nat [of 1] by simp

lemma round_double_scaled:
  assumes "0 < x" and "2 ^ 52 \<le> x * 2 ^ k" and "x * 2 ^ k < 2 ^ 53"
  shows "round_double x = of_int (round_half_even (x * 2 ^ k)) / 2 ^ k"
proof -
  define b where "b = 52 - int k"
  have e: "b - 52 = - int k" unfolding b_def by simp
  have p: "(2::real) powi (- int k) = 1 / 2 ^ k" by (simp add: power_int_minus_divide)
  have "(2::real) powi b = 2 powi 52 * 2 powi (- int k)"
    unfolding b_def by (simp add: power_int_diff power_int_minus_divide)
  then have lo: "(2::real) powi b = 2 ^ 52 / 2 ^ k" unfolding p by simp
  have "(2::real) powi (b + 1) = 2 powi 53 * 2 powi (- int k)"
    unfolding b_def by (simp add: power_int_diff power_int_minus_divide power_int_add)
  then have hi: "(2::real) powi (b + 1) = 2 ^ 53 / 2 ^ k" unfolding p by simp
  have l: "2 powi b \<le> x" unfolding lo using assms(2) by (simp add: pos_divide_le_eq)
  have u: "x < 2 powi (b + 1)" unfolding hi using assms(3) by (simp add: pos_less_divide_eq)
  show ?thesis unfolding round_double_eval [OF assms(1) l u] e p by simp
qed

lemma round_half_even_nearest:
  assumes "of_int n - 1 / 2 < z" and "z < of_int n + 1 / 2"
  shows "round_half_even z = n"
proof (cases "of_int n \<le> z")
  case True
  then have "\<lfloor>z\<rfloor> = n" using assms(2) by linarith
  then show ?thesis using assms(2) by (simp add: round_half_even_def Let_def)
next
  case False
  then have f: "\<lfloor>z\<rfloor> = n - 1" using assms(1) by linarith
  have "1 / 2 < z - of_int (n - 1)" using assms(1) by simp
  then show ?thesis unfolding round_half_even_def Let_def f by simp
qed

lemma round_double_nearest:
  assumes "0 < x" and "2 ^ 52 \<le> x * 2 ^ k" and "x * 2 ^ k < 2 ^ 53"
    and "of_int n - 1 / 2 < x * 2 ^ k" and "x * 2 ^ k < of_int n + 1 / 2"
  shows "round_double x = of_int n / 2 ^ k"
  unfolding round_double_scaled [OF assms(1,2,3)] round_half_even_nearest [OF assms(4,5)] ..

section \<open>Properties of speaker attribution\<close>

lemma overlap_nonneg: "0 \<le> overlap t s e"
  by (simp add: overlap_def)

lemma overlap_pos_iff: "0 < overlap t s e \<longleftrightarrow> max (turn_start t) s < min (turn_end t) e"
proof -
  define a where "a = max (turn_start t) s"
  define b where "b = min (turn_end t) e"
  have "0 < max 0 (b - a) \<longleftrightarrow> a < b" by linarith
  then show ?thesis unfolding overlap_def a_def b_def .
qed

lemma accumulate_turn_unfold:
  "accumulate_turn s e acc ts =
     (if max (turn_start (fst ts)) s < min (turn_end (fst ts)) e
      then dict_set acc (snd ts)
             (fl_add (dict_get acc (snd ts) 0)
                (fl_sub (min (turn_end (fst ts)) e) (max (turn_start (fst ts)) s)))
      else acc)"
  unfolding accumulate_turn_def Let_def case_prod_beta ..

lemma accumulate_turn_pos:
  assumes "0 < overlap (fst ts) s e"
  shows "accumulate_turn s e acc ts =
    dict_set acc (snd ts)
      (fl_add (dict_get acc (snd ts) 0)
         (fl_sub (min (turn_end (fst ts)) e) (max (turn_start (fst ts)) s)))"
proof -
  have "max (turn_start (fst ts)) s < min (turn_end (fst ts)) e"
    using assms unfolding overlap_pos_iff .
  then show ?thesis unfolding accumulate_turn_unfold by (rule if_P)
qed

lemma accumulate_turn_zero:
  assumes "overlap (fst ts) s e = 0"
  shows "accumulate_turn s e acc ts = acc"
proof -
  have "\<not> 0 < overlap (fst ts) s e" using assms by simp
  then have "\<not> max (turn_start (fst ts)) s < min (turn_end (fst ts)) e"
    unfolding overlap_pos_iff .
  then show ?thesis unfolding accumulate_turn_unfold by (rule if_not_P)
qed

lemma dict_get_dict_set:
  "dict_get (dict_set d k v) k' dflt = (if k' = k then v else dict_get d k' dflt)"
  by (induction d) auto

lemma keys_dict_set:
  "dict_keys (dict_set d k v) = (if k \<in> set (dict_keys d) then dict_keys d else dict_keys d @ [k])"
  by (induction d) (force simp: dict_keys_def)+

lemma get_accumulate_turn:
  "dict_get (accumulate_turn s e acc ts) k 0 =
   (if snd ts = k \<and> max (turn_start (fst ts)) s < min (turn_end (fst ts)) e
    then fl_add (dict_get acc k 0)
           (fl_sub (min (turn_end (fst ts)) e) (max (turn_start (fst ts)) s))
    else dict_get acc k 0)"
proof -
  define g where "g \<longleftrightarrow> max (turn_start (fst ts)) s < min (turn_end (fst ts)) e"
  define dur where "dur = fl_sub (min (turn_end (fst ts)) e) (max (turn_start (fst ts)) s)"
  have u: "accumulate_turn s e acc ts =
    (if g then dict_set acc (snd ts) (fl_add (dict_get acc (snd ts) 0) dur) else acc)"
    unfolding g_def dur_def by (rule accumulate_turn_unfold)
  have "dict_get (accumulate_turn s e acc ts) k 0 =
    (if snd ts = k \<and> g then fl_add (dict_get acc k 0) dur else dict_get acc k 0)"
    unfolding u by (simp add: dict_get_dict_set)
  then show ?thesis unfolding g_def dur_def .
qed

lemma total_overlap_Nil: "total_overlap [] s e k = 0"
  by (simp add: total_overlap_def)

lemma total_overlap_Cons:
  "total_overlap (ts # d) s e k = (if snd ts = k then overlap (fst ts) s e else 0) + total_overlap d s e k"
  by (simp add: total_overlap_def)

lemma get_foldl_accumulate:
  "dict_get (foldl (accumulate_turn s e) acc d) k 0 =
   foldl fl_add (dict_get acc k 0)
     (map (\<lambda>ts. fl_sub (min (turn_end (fst ts)) e) (max (turn_start (fst ts)) s))
        (filter (\<lambda>ts. snd ts = k \<and> max (turn_start (fst ts)) s < min (turn_end (fst ts)) e) d))"
  by (induction d arbitrary: acc) (simp_all add: get_accumulate_turn)

lemma total_overlap_nonneg: "0 \<le> total_overlap d s e k"
  by (induction d) (simp_all add: total_overlap_Nil total_overlap_Cons overlap_nonneg)

lemma total_overlap_pos_iff:
  "0 < total_overlap d s e k \<longleftrightarrow> (\<exists>t. (t, k) \<in> set d \<and> 0 < overlap t s e)"
proof (induction d)
  case Nil
  show ?case by (simp add: total_overlap_Nil)
next
  case (Cons ts d)
  have a: "0 \<le> overlap (fst ts) s e" by (rule overlap_nonneg)
  have b: "0 \<le> total_overlap d s e k" by (rule total_overlap_nonneg)
  show ?case
  proof (cases "snd ts = k")
    case True
    then have "0 < total_overlap (ts # d) s e k \<longleftrightarrow> 0 < overlap (fst ts) s e \<or> 0 < total_overlap d s e k"
      using a b by (simp add: total_overlap_Cons) linarith
    with Cons True show ?thesis by (cases ts) auto
  next
    case False
    with Cons show ?thesis by (cases ts) (auto simp: total_overlap_Cons)
  qed
qed

lemma keys_accumulate_turn:
  "set (dict_keys (accumulate_turn s e acc ts)) =
   set (dict_keys acc) \<union> (if 0 < overlap (fst ts) s e then {snd ts} else {})"
proof (cases "0 < overlap (fst ts) s e")
  case True
  then show ?thesis by (auto simp: accumulate_turn_pos keys_dict_set)
next
  case False
  then have z: "overlap (fst ts) s e = 0" using overlap_nonneg [of "fst ts" s e] by linarith
  then show ?thesis by (simp add: accumulate_turn_zero)
qed

lemma keys_foldl_accumulate:
  "set (dict_keys (foldl (accumulate_turn s e) acc d)) =
   set (dict_keys acc) \<union> {k. \<exists>t. (t, k) \<in> set d \<and> 0 < overlap t s e}"
proof (induction d arbitrary: acc)
  case Nil
  show ?case by simp
next
  case (Cons ts d)
  show ?case by (cases ts) (auto simp: Cons keys_accumulate_turn split: if_splits)
qed

lemma keys_speaker_time_of:
  "k \<in> set (dict_keys (speaker_time_of d s e)) \<longleftrightarrow> 0 < total_overlap d s e k"
  unfolding speaker_time_of_def keys_foldl_accumulate total_overlap_pos_iff
  by (simp add: dict_keys_def)

lemma get_speaker_time_of:
  "dict_get (speaker_time_of d s e) k 0 = accumulated d s e k"
  by (simp add: speaker_time_of_def get_foldl_accumulate accumulated_def)

lemma foldl_fl_add_pos:
  "0 < v \<Longrightarrow> \<forall>x\<in>set xs. 0 < x \<Longrightarrow> 0 < foldl fl_add v xs"
proof (induction xs arbitrary: v)
  case Nil
  then show ?case by simp
next
  case (Cons x xs)
  have "0 < fl_add v x" using Cons.prems by (intro fl_add_pos) simp_all
  then show ?case using Cons.prems(2) by (simp add: Cons.IH)
qed

lemma accumulated_pos_iff:
  "0 < accumulated d s e k \<longleftrightarrow> (\<exists>t. (t, k) \<in> set d \<and> 0 < overlap t s e)"
proof -
  define ds where "ds =
    map (\<lambda>ts. fl_sub (min (turn_end (fst ts)) e) (max (turn_start (fst ts)) s))
      (filter (\<lambda>ts. snd ts = k \<and> max (turn_start (fst ts)) s < min (turn_end (fst ts)) e) d)"
  have a: "accumulated d s e k = foldl fl_add 0 ds" unfolding accumulated_def ds_def ..
  have p: "\<forall>x\<in>set ds. 0 < x" unfolding ds_def by (auto intro: fl_sub_pos)
  have n: "ds \<noteq> [] \<longleftrightarrow> (\<exists>t. (t, k) \<in> set d \<and> 0 < overlap t s e)"
    unfolding ds_def overlap_pos_iff by (force simp: filter_empty_conv)
  show ?thesis
  proof (cases ds)
    case Nil
    then show ?thesis using n unfolding a by simp
  next
    case (Cons x xs)
    have "0 < fl_add 0 x" using p Cons by (intro fl_add_pos) simp_all
    then have "0 < foldl fl_add (fl_add 0 x) xs" using p Cons by (intro foldl_fl_add_pos) simp_all
    then show ?thesis using n unfolding a Cons by simp
  qed
qed

lemma accumulated_nonneg: "0 \<le> accumulated d s e k"
proof (cases "\<exists>t. (t, k) \<in> set d \<and> 0 < overlap t s e")
  case True
  then have "0 < accumulated d s e k" by (simp add: accumulated_pos_iff)
  then show ?thesis by simp
next
  case False
  then have "filter (\<lambda>ts. snd ts = k \<and> max (turn_start (fst ts)) s < min (turn_end (fst ts)) e) d = []"
    unfolding overlap_pos_iff by (force simp: filter_empty_conv)
  then show ?thesis by (simp add: accumulated_def)
qed

lemma py_max_from_first:
  "\<exists>pre post. best # xs = pre @ py_max_from key best xs # post \<and>
     (\<forall>y\<in>set pre. key y < key (py_max_from key best xs)) \<and>
     (\<forall>y\<in>set post. key y \<le> key (py_max_from key best xs))"
proof (induction xs arbitrary: best)
  case Nil
  have "[best] = [] @ best # [] \<and> (\<forall>y\<in>set []. key y < key best) \<and>
    (\<forall>y\<in>set []. key y \<le> key best)" by simp
  then show ?case unfolding py_max_from.simps by blast
next
  case (Cons x xs)
  show ?case
  proof (cases "key x > key best")
    case True
    define r where "r = py_max_from key x xs"
    from Cons [of x] obtain pre post where
      d: "x # xs = pre @ r # post" and
      p: "\<forall>y\<in>set pre. key y < key r" and
      q: "\<forall>y\<in>set post. key y \<le> key r" unfolding r_def by blast
    have r: "py_max_from key best (x # xs) = r" using True by (simp add: r_def)
    have "x \<in> set (x # xs)" by simp
    then have "x \<in> set (pre @ r # post)" unfolding d .
    then have "key x \<le> key r" using p q by auto
    then have "key best < key r" using True by linarith
    then have "best # x # xs = (best # pre) @ r # post \<and>
      (\<forall>y\<in>set (best # pre). key y < key r) \<and>
      (\<forall>y\<in>set post. key y \<le> key r)" using d p q by simp
    then show ?thesis unfolding r by blast
  next
    case False
    define r where "r = py_max_from key best xs"
    from Cons [of best] obtain pre post where
      d: "best # xs = pre @ r # post" and
      p: "\<forall>y\<in>set pre. key y < key r" and
      q: "\<forall>y\<in>set post. key y \<le> key r" unfolding r_def by blast
    have r: "py_max_from key best (x # xs) = r" using False by (simp add: r_def)
    show ?thesis
    proof (cases pre)
      case Nil
      have e: "best = r" "xs = post" using d unfolding Nil by simp_all
      have "key x \<le> key r" using False e by simp
      then have "best # x # xs = [] @ r # (x # post) \<and>
        (\<forall>y\<in>set []. key y < key r) \<and> (\<forall>y\<in>set (x # post). key y \<le> key r)"
        using q e by simp
      then show ?thesis unfolding r by blast
    next
      case (Cons b pre')
      have b: "b = best" "xs = pre' @ r # post" using d unfolding Cons by simp_all
      have "key best < key r" using p Cons b by simp
      then have "key x < key r" using False by linarith
      then have "best # x # xs = (best # x # pre') @ r # post \<and>
        (\<forall>y\<in>set (best # x # pre'). key y < key r) \<and> (\<forall>y\<in>set post. key y \<le> key r)"
        using b p q Cons by auto
      then show ?thesis unfolding r by blast
    qed
  qed
qed

lemma distinct_dict_set:
  "distinct (dict_keys d) \<Longrightarrow> distinct (dict_keys (dict_set d k v))"
  by (simp add: keys_dict_set)

lemma distinct_accumulate_turn:
  "distinct (dict_keys acc) \<Longrightarrow> distinct (dict_keys (accumulate_turn s e acc ts))"
proof (cases "0 < overlap (fst ts) s e")
  case True
  assume "distinct (dict_keys acc)"
  then show ?thesis using True by (simp add: accumulate_turn_pos distinct_dict_set)
next
  case False
  assume d: "distinct (dict_keys acc)"
  from False have "overlap (fst ts) s e = 0" using overlap_nonneg [of "fst ts" s e] by linarith
  then show ?thesis using d by (simp add: accumulate_turn_zero)
qed

lemma distinct_foldl_accumulate:
  "distinct (dict_keys acc) \<Longrightarrow> distinct (dict_keys (foldl (accumulate_turn s e) acc d))"
  by (induction d arbitrary: acc) (simp_all add: distinct_accumulate_turn)

lemma keys_accumulate_turn_list:
  "dict_keys (accumulate_turn s e acc ts) =
   (if 0 < overlap (fst ts) s e \<and> snd ts \<notin> set (dict_keys acc)
    then dict_keys acc @ [snd ts] else dict_keys acc)"
proof (cases "0 < overlap (fst ts) s e")
  case True
  then show ?thesis by (simp add: accumulate_turn_pos keys_dict_set)
next
  case False
  then have "overlap (fst ts) s e = 0" using overlap_nonneg [of "fst ts" s e] by linarith
  then show ?thesis by (simp add: accumulate_turn_zero)
qed

lemma keys_foldl_extend:
  "\<exists>ext. dict_keys (foldl (accumulate_turn s e) acc d) = dict_keys acc @ ext"
proof (induction d arbitrary: acc)
  case Nil
  show ?case by simp
next
  case (Cons ts d)
  from Cons [of "accumulate_turn s e acc ts"] obtain ext where
    "dict_keys (foldl (accumulate_turn s e) (accumulate_turn s e acc ts) d) =
     dict_keys (accumulate_turn s e acc ts) @ ext" by blast
  then show ?case by (auto simp: keys_accumulate_turn_list)
qed

lemma first_inserted:
  assumes "dict_keys (foldl (accumulate_turn s e) acc d) = pre @ r # post"
    and "distinct (dict_keys acc)" and "r \<notin> set (dict_keys acc)"
  shows "\<exists>dpre t dpost. d = dpre @ (t, r) # dpost \<and> 0 < overlap t s e \<and>
           (\<forall>ts\<in>set dpre. 0 < overlap (fst ts) s e \<longrightarrow> snd ts \<in> set pre) \<and>
           set (dict_keys acc) \<subseteq> set pre"
  using assms
proof (induction d arbitrary: acc)
  case Nil
  then show ?case by (metis foldl_Nil in_set_conv_decomp)
next
  case (Cons ts d)
  define acc' where "acc' = accumulate_turn s e acc ts"
  have k: "dict_keys (foldl (accumulate_turn s e) acc' d) = pre @ r # post"
    using Cons.prems(1) by (simp add: acc'_def)
  have dacc': "distinct (dict_keys acc')"
    unfolding acc'_def using Cons.prems(2) by (rule distinct_accumulate_turn)
  have dall: "distinct (pre @ r # post)"
    using distinct_foldl_accumulate [OF dacc', of s e d] k by simp
  have ka: "dict_keys acc' =
    (if 0 < overlap (fst ts) s e \<and> snd ts \<notin> set (dict_keys acc)
     then dict_keys acc @ [snd ts] else dict_keys acc)"
    unfolding acc'_def by (rule keys_accumulate_turn_list)
  show ?case
  proof (cases "r \<in> set (dict_keys acc')")
    case True
    with Cons.prems(3) ka have pos: "0 < overlap (fst ts) s e" and sp: "snd ts = r"
      and ka': "dict_keys acc' = dict_keys acc @ [r]"
      by (auto split: if_splits)
    obtain ext where "dict_keys (foldl (accumulate_turn s e) acc' d) = dict_keys acc' @ ext"
      using keys_foldl_extend by blast
    with k ka' have eq: "dict_keys acc @ r # ext = pre @ r # post" by simp
    have "distinct (dict_keys acc @ r # ext)" using dall unfolding eq .
    then have "r \<notin> set ext" by simp
    then have "dict_keys acc = pre"
      using Cons.prems(3) eq append_Cons_eq_iff [of r "dict_keys acc" ext pre post] by blast
    moreover have "ts = (fst ts, r)" using sp by (cases ts) simp
    then have "ts # d = [] @ (fst ts, r) # d" by simp
    ultimately show ?thesis using pos by fastforce
  next
    case False
    from Cons.IH [OF k dacc' False] obtain dpre t dpost where
      d: "d = dpre @ (t, r) # dpost" and pos: "0 < overlap t s e" and
      b: "\<forall>ts\<in>set dpre. 0 < overlap (fst ts) s e \<longrightarrow> snd ts \<in> set pre" and
      sub: "set (dict_keys acc') \<subseteq> set pre" by blast
    have sub2: "set (dict_keys acc) \<subseteq> set pre" using sub ka by (auto split: if_splits)
    have "0 < overlap (fst ts) s e \<longrightarrow> snd ts \<in> set pre"
      using sub ka by (auto split: if_splits)
    then have "ts # d = (ts # dpre) @ (t, r) # dpost \<and> 0 < overlap t s e \<and>
      (\<forall>ts\<in>set (ts # dpre). 0 < overlap (fst ts) s e \<longrightarrow> snd ts \<in> set pre) \<and>
      set (dict_keys acc) \<subseteq> set pre" using d pos b sub2 by simp
    then show ?thesis by blast
  qed
qed

text \<open>The function picks, among the keys of the dict, the first one of maximal value.\<close>

lemma get_speaker_for_time_first_max:
  assumes "speaker_time_of d s e \<noteq> []"
  shows "\<exists>pre post. dict_keys (speaker_time_of d s e) = pre @ get_speaker_for_time d s e # post \<and>
    (\<forall>k\<in>set pre. accumulated d s e k < accumulated d s e (get_speaker_for_time d s e)) \<and>
    (\<forall>k\<in>set post. accumulated d s e k \<le> accumulated d s e (get_speaker_for_time d s e))"
proof -
  obtain k ks where ks: "dict_keys (speaker_time_of d s e) = k # ks"
    using assms by (cases "speaker_time_of d s e") (auto simp: dict_keys_def)
  have g: "get_speaker_for_time d s e = py_max_from (\<lambda>k. accumulated d s e k) k ks"
    by (simp add: get_speaker_for_time_def ks get_speaker_time_of)
  show ?thesis unfolding g ks by (rule py_max_from_first)
qed

lemma get_speaker_for_time_unknown:
  "speaker_time_of d s e = [] \<Longrightarrow> get_speaker_for_time d s e = ''Unknown Speaker''"
  by (simp add: get_speaker_for_time_def dict_keys_def)

lemma speaker_time_of_empty_iff:
  "speaker_time_of d s e = [] \<longleftrightarrow> (\<forall>ts\<in>set d. overlap (fst ts) s e = 0)"
proof -
  have "speaker_time_of d s e = [] \<longleftrightarrow> set (dict_keys (speaker_time_of d s e)) = {}"
    by (simp add: dict_keys_def)
  also have "\<dots> \<longleftrightarrow> (\<forall>k. \<not> 0 < total_overlap d s e k)"
    by (auto simp: keys_speaker_time_of [symmetric])
  also have "\<dots> \<longleftrightarrow> (\<forall>ts\<in>set d. \<not> 0 < overlap (fst ts) s e)"
    by (auto simp: total_overlap_pos_iff)
  also have "\<dots> \<longleftrightarrow> (\<forall>ts\<in>set d. overlap (fst ts) s e = 0)"
    using overlap_nonneg by (metis less_eq_real_def less_irrefl)
  finally show ?thesis .
qed

lemma get_speaker_for_time_max:
  assumes "speaker_time_of d s e \<noteq> []"
  shows "get_speaker_for_time d s e \<in> set (dict_keys (speaker_time_of d s e))"
    and "0 < total_overlap d s e (get_speaker_for_time d s e)"
    and "0 < accumulated d s e (get_speaker_for_time d s e)"
    and "accumulated d s e k \<le> accumulated d s e (get_speaker_for_time d s e)"
proof -
  let ?r = "get_speaker_for_time d s e"
  from get_speaker_for_time_first_max [OF assms] obtain pre post where
    ks: "dict_keys (speaker_time_of d s e) = pre @ ?r # post" and
    p: "\<forall>k\<in>set pre. accumulated d s e k < accumulated d s e ?r" and
    q: "\<forall>k\<in>set post. accumulated d s e k \<le> accumulated d s e ?r" by blast
  show key: "?r \<in> set (dict_keys (speaker_time_of d s e))" unfolding ks by simp
  then show "0 < total_overlap d s e ?r" by (simp add: keys_speaker_time_of)
  then show pos: "0 < accumulated d s e ?r"
    by (simp add: accumulated_pos_iff total_overlap_pos_iff)
  show "accumulated d s e k \<le> accumulated d s e ?r"
  proof (cases "k \<in> set (dict_keys (speaker_time_of d s e))")
    case True
    then show ?thesis unfolding ks using p q by auto
  next
    case False
    then have "\<not> 0 < accumulated d s e k"
      by (simp add: keys_speaker_time_of accumulated_pos_iff total_overlap_pos_iff)
    then show ?thesis using pos by linarith
  qed
qed

lemma speaker_time_of_nonempty:
  assumes "\<exists>ts\<in>set d. 0 < overlap (fst ts) s e"
  shows "speaker_time_of d s e \<noteq> []"
proof
  assume "speaker_time_of d s e = []"
  then have "\<forall>ts\<in>set d. overlap (fst ts) s e = 0" by (simp add: speaker_time_of_empty_iff)
  with assms show False by fastforce
qed

lemma round_half_even_tie:
  assumes "z = of_int n + 1 / 2" and "even n"
  shows "round_half_even z = n"
proof -
  have f: "\<lfloor>z\<rfloor> = n" unfolding assms(1) by linarith
  have r: "z - of_int n = 1 / 2" unfolding assms(1) by simp
  show ?thesis unfolding round_half_even_def Let_def f r using assms(2) by simp
qed

lemma round_double_tie:
  assumes "0 < x" and "2 ^ 52 \<le> x * 2 ^ k" and "x * 2 ^ k < 2 ^ 53"
    and "x * 2 ^ k = of_int n + 1 / 2" and "even n"
  shows "round_double x = of_int n / 2 ^ k"
  unfolding round_double_scaled [OF assms(1,2,3)] round_half_even_tie [OF assms(4,5)] ..

lemma dbl_016: "round_double (16 / 100) = 5764607523034235 / 2 ^ 55"
  using round_double_nearest [of "16 / 100" 55 5764607523034235] by simp

lemma dbl_063: "round_double (63 / 100) = 5674535530486825 / 2 ^ 53"
  using round_double_nearest [of "63 / 100" 53 5674535530486825] by simp

lemma dbl_136: "round_double (136 / 100) = 6124895493223875 / 2 ^ 52"
  using round_double_nearest [of "136 / 100" 52 6124895493223875] by simp

lemma dbl_379: "round_double (379 / 100) = 8534321293867090 / 2 ^ 51"
  using round_double_nearest [of "379 / 100" 51 8534321293867090] by simp

lemma dbl_385: "round_double (385 / 100) = 8669429282688205 / 2 ^ 51"
  using round_double_nearest [of "385 / 100" 51 8669429282688205] by simp

lemma dbl_675: "round_double (675 / 100) = 7599824371187712 / 2 ^ 50"
  using round_double_nearest [of "675 / 100" 50 7599824371187712] by simp

lemma sub_a1:
  "fl_sub (5674535530486825 / 2 ^ 53) (5764607523034235 / 2 ^ 55) = 8466767299456532 / 2 ^ 54"
  unfolding fl_sub_def
  using round_double_tie [of "5674535530486825 / 2 ^ 53 - 5764607523034235 / 2 ^ 55" 54
      8466767299456532] by simp

lemma sub_a2:
  "fl_sub (8534321293867090 / 2 ^ 51) (6124895493223875 / 2 ^ 52) = 5471873547255152 / 2 ^ 51"
  unfolding fl_sub_def
  using round_double_tie [of "8534321293867090 / 2 ^ 51 - 6124895493223875 / 2 ^ 52" 51
      5471873547255152] by simp

lemma sub_b1:
  "fl_sub (7599824371187712 / 2 ^ 50) (8669429282688205 / 2 ^ 51) = 6530219459687219 / 2 ^ 51"
  unfolding fl_sub_def
  using round_double_nearest [of "7599824371187712 / 2 ^ 50 - 8669429282688205 / 2 ^ 51" 51
      6530219459687219] by simp

lemma add_a1: "fl_add 0 (8466767299456532 / 2 ^ 54) = 8466767299456532 / 2 ^ 54"
  unfolding fl_add_def
  using round_double_nearest [of "0 + 8466767299456532 / 2 ^ 54" 54 8466767299456532] by simp

lemma add_b1: "fl_add 0 (6530219459687219 / 2 ^ 51) = 6530219459687219 / 2 ^ 51"
  unfolding fl_add_def
  using round_double_nearest [of "0 + 6530219459687219 / 2 ^ 51" 51 6530219459687219] by simp

lemma add_a: "fl_add (8466767299456532 / 2 ^ 54) (5471873547255152 / 2 ^ 51) = 6530219459687218 / 2 ^ 51"
  unfolding fl_add_def
  using round_double_tie [of "8466767299456532 / 2 ^ 54 + 5471873547255152 / 2 ^ 51" 51
      6530219459687218] by simp

lemmas attribution_defs =
  get_speaker_for_time_def speaker_time_of_def accumulate_turn_def dict_keys_def
  total_overlap_def overlap_def accumulated_def fl_add_def fl_sub_def round_double_numeral Let_def

lemma decimal_turns_run:
  "speaker_time_of decimal_turns 0 20 =
     [(''A'', 6530219459687218 / 2 ^ 51), (''B'', 6530219459687219 / 2 ^ 51)]"
  "total_overlap decimal_turns 0 20 ''A'' - total_overlap decimal_turns 0 20 ''B'' = 1 / 2 ^ 55"
proof -
  define c16 :: real where "c16 = 5764607523034235 / 2 ^ 55"
  define c63 :: real where "c63 = 5674535530486825 / 2 ^ 53"
  define c136 :: real where "c136 = 6124895493223875 / 2 ^ 52"
  define c379 :: real where "c379 = 8534321293867090 / 2 ^ 51"
  define c385 :: real where "c385 = 8669429282688205 / 2 ^ 51"
  define c675 :: real where "c675 = 7599824371187712 / 2 ^ 50"
  note cs = c16_def c63_def c136_def c379_def c385_def c675_def
  have t: "decimal_turns =
     [(\<lparr>turn_start = c16, turn_end = c63\<rparr>, ''A''),
      (\<lparr>turn_start = c136, turn_end = c379\<rparr>, ''A''),
      (\<lparr>turn_start = c385, turn_end = c675\<rparr>, ''B'')]"
    unfolding decimal_turns_def dbl_016 dbl_063 dbl_136 dbl_379 dbl_385 dbl_675 cs ..
  have o: "0 < c16" "c16 < c63" "c63 < 20" "0 < c136" "c136 < c379" "c379 < 20"
    "0 < c385" "c385 < c675" "c675 < 20" unfolding cs by simp_all
  have m: "max c16 0 = c16" "min c63 20 = c63" "max c136 0 = c136" "min c379 20 = c379"
    "max c385 0 = c385" "min c675 20 = c675" using o by simp_all
  have st: "speaker_time_of decimal_turns 0 20 =
     [(''A'', fl_add (fl_add 0 (fl_sub c63 c16)) (fl_sub c379 c136)),
      (''B'', fl_add 0 (fl_sub c675 c385))]"
    unfolding t speaker_time_of_def by (simp add: accumulate_turn_unfold m o)
  show "speaker_time_of decimal_turns 0 20 =
     [(''A'', 6530219459687218 / 2 ^ 51), (''B'', 6530219459687219 / 2 ^ 51)]"
    unfolding st unfolding cs sub_a1 sub_a2 sub_b1 add_a1 add_b1 add_a ..
  have "total_overlap decimal_turns 0 20 ''A'' = (c63 - c16) + (c379 - c136)"
    unfolding t total_overlap_def overlap_def using o by (simp add: m)
  moreover have "total_overlap decimal_turns 0 20 ''B'' = c675 - c385"
    unfolding t total_overlap_def overlap_def using o by (simp add: m)
  ultimately show "total_overlap decimal_turns 0 20 ''A'' - total_overlap decimal_turns 0 20 ''B''
    = 1 / 2 ^ 55" unfolding cs by simp
qed

text \<open>
  Claim C1, as amended.  When some turn has a positive overlap with the window, the label
  returned is the speaker of some turn, its exact total overlap is positive, and the sum
  the source accumulates for it (rounded differences, added in the order of the turns,
  each sum rounded) is positive and at least the sum accumulated for any speaker.  When
  every turn has overlap zero, and in particular when there is no turn, the result is the
  string \<open>Unknown Speaker\<close>.
\<close>

theorem get_speaker_for_time_max_accumulated:
  "((\<exists>ts\<in>set d. 0 < overlap (fst ts) s e) \<longrightarrow>
      get_speaker_for_time d s e \<in> snd ` set d \<and>
      0 < total_overlap d s e (get_speaker_for_time d s e) \<and>
      0 < accumulated d s e (get_speaker_for_time d s e) \<and>
      (\<forall>sp. accumulated d s e sp \<le> accumulated d s e (get_speaker_for_time d s e))) \<and>
   ((\<forall>ts\<in>set d. overlap (fst ts) s e = 0) \<longrightarrow>
      get_speaker_for_time d s e = ''Unknown Speaker'') \<and>
   get_speaker_for_time [] s e = ''Unknown Speaker''"
proof (intro conjI impI allI)
  assume "\<exists>ts\<in>set d. 0 < overlap (fst ts) s e"
  then have ne: "speaker_time_of d s e \<noteq> []"
    by (rule speaker_time_of_nonempty)
  show pos: "0 < total_overlap d s e (get_speaker_for_time d s e)"
    by (rule get_speaker_for_time_max(2) [OF ne])
  show "0 < accumulated d s e (get_speaker_for_time d s e)"
    by (rule get_speaker_for_time_max(3) [OF ne])
  show "accumulated d s e sp \<le> accumulated d s e (get_speaker_for_time d s e)" for sp
    by (rule get_speaker_for_time_max(4) [OF ne])
  from pos show "get_speaker_for_time d s e \<in> snd ` set d"
    by (force simp: total_overlap_pos_iff)
next
  assume "\<forall>ts\<in>set d. overlap (fst ts) s e = 0"
  then have "speaker_time_of d s e = []" by (simp add: speaker_time_of_empty_iff)
  then show "get_speaker_for_time d s e = ''Unknown Speaker''"
    by (rule get_speaker_for_time_unknown)
next
  show "get_speaker_for_time [] s e = ''Unknown Speaker''"
    by (simp add: get_speaker_for_time_unknown speaker_time_of_def)
qed

theorem get_speaker_for_time_max_accumulated_witness:
  "get_speaker_for_time spec_example_turns 8 15 = ''B'' \<and>
   accumulated spec_example_turns 8 15 ''A'' = 2 \<and>
   accumulated spec_example_turns 8 15 ''B'' = 5 \<and>
   accumulated spec_example_turns 8 15 ''A''
     \<le> accumulated spec_example_turns 8 15 (get_speaker_for_time spec_example_turns 8 15) \<and>
   get_speaker_for_time spec_example_turns 30 40 = ''Unknown Speaker'' \<and>
   get_speaker_for_time [] 0 5 = ''Unknown Speaker''"
proof -
  have h1: "\<exists>ts\<in>set spec_example_turns. 0 < overlap (fst ts) 8 15"
    by (simp add: spec_example_turns_def overlap_def)
  have h2: "\<forall>ts\<in>set spec_example_turns. overlap (fst ts) 30 40 = 0"
    by (simp add: spec_example_turns_def overlap_def)
  have a: "accumulated spec_example_turns 8 15 ''A''
     \<le> accumulated spec_example_turns 8 15 (get_speaker_for_time spec_example_turns 8 15)"
    using get_speaker_for_time_max_accumulated [of spec_example_turns 8 15] h1 by blast
  have b: "get_speaker_for_time spec_example_turns 30 40 = ''Unknown Speaker''"
    using get_speaker_for_time_max_accumulated [of spec_example_turns 30 40] h2 by blast
  have c: "get_speaker_for_time [] 0 5 = ''Unknown Speaker''"
    using get_speaker_for_time_max_accumulated [of "[]" 0 5] by blast
  have d: "get_speaker_for_time spec_example_turns 8 15 = ''B''"
    by (simp add: spec_example_turns_def attribution_defs)
  have e: "accumulated spec_example_turns 8 15 ''A'' = 2"
    "accumulated spec_example_turns 8 15 ''B'' = 5"
    by (simp_all add: spec_example_turns_def attribution_defs)
  show ?thesis using a b c d e by blast
qed

text \<open>
  Claim C1 as stated fails.  On the turns \<open>(0.16, 0.63, A)\<close>, \<open>(1.36, 3.79, A)\<close>,
  \<open>(3.85, 6.75, B)\<close> and the window \<open>[0, 20]\<close> the dict holds a smaller sum for \<open>A\<close> than
  for \<open>B\<close>, so \<open>B\<close> is returned, while the exact total overlap of \<open>A\<close> is the larger one.
\<close>

theorem exact_total_not_maximal:
  "get_speaker_for_time decimal_turns 0 20 = ''B'' \<and>
   accumulated decimal_turns 0 20 ''A'' < accumulated decimal_turns 0 20 ''B'' \<and>
   total_overlap decimal_turns 0 20 ''B'' < total_overlap decimal_turns 0 20 ''A''"
proof -
  have g: "get_speaker_for_time decimal_turns 0 20 = ''B''"
    unfolding get_speaker_for_time_def decimal_turns_run(1) by (simp add: dict_keys_def)
  have a: "accumulated decimal_turns 0 20 ''A'' = 6530219459687218 / 2 ^ 51"
    "accumulated decimal_turns 0 20 ''B'' = 6530219459687219 / 2 ^ 51"
    unfolding get_speaker_time_of [symmetric] decimal_turns_run(1) by simp_all
  have "accumulated decimal_turns 0 20 ''A'' < accumulated decimal_turns 0 20 ''B''"
    unfolding a by simp
  moreover have "total_overlap decimal_turns 0 20 ''B'' < total_overlap decimal_turns 0 20 ''A''"
    using decimal_turns_run(2) by simp
  ultimately show ?thesis using g by blast
qed

text \<open>
  Claim C2.  A turn that ends exactly where the window starts, or starts exactly where the
  window ends, fails the guard \<open>overlap_start < overlap_end\<close>: its overlap is zero, the
  loop body leaves the dict as it was, and the dict and the result are those of the list
  of turns without it.
\<close>

theorem abutting_turn_contributes_nothing:
  "turn_end t = s \<or> turn_start t = e \<Longrightarrow>
     \<not> max (turn_start t) s < min (turn_end t) e \<and>
     overlap t s e = 0 \<and>
     accumulate_turn s e acc (t, sp) = acc \<and>
     speaker_time_of (pre @ (t, sp) # post) s e = speaker_time_of (pre @ post) s e \<and>
     get_speaker_for_time (pre @ (t, sp) # post) s e = get_speaker_for_time (pre @ post) s e"
proof -
  assume a: "turn_end t = s \<or> turn_start t = e"
  then have g: "\<not> max (turn_start t) s < min (turn_end t) e" by (auto simp: max_def min_def)
  then have z: "overlap t s e = 0" using overlap_pos_iff [of t s e] overlap_nonneg [of t s e] by linarith
  then have acc: "accumulate_turn s e acc' (t, sp) = acc'" for acc'
    by (simp add: accumulate_turn_zero)
  have st: "speaker_time_of (pre @ (t, sp) # post) s e = speaker_time_of (pre @ post) s e"
    by (simp add: speaker_time_of_def acc)
  have "get_speaker_for_time (pre @ (t, sp) # post) s e = get_speaker_for_time (pre @ post) s e"
    by (simp add: get_speaker_for_time_def st)
  with g z acc st show ?thesis by blast
qed

theorem abutting_turn_contributes_nothing_witness:
  "overlap \<lparr>turn_start = 0, turn_end = 5\<rparr> 5 10 = 0 \<and>
   overlap \<lparr>turn_start = 10, turn_end = 12\<rparr> 5 10 = 0 \<and>
   speaker_time_of touching_turns 5 10 = [(''B'', 2)] \<and>
   speaker_time_of touching_turns 5 10
     = speaker_time_of [(\<lparr>turn_start = 6, turn_end = 8\<rparr>, ''B''), (\<lparr>turn_start = 10, turn_end = 12\<rparr>, ''A'')] 5 10 \<and>
   accumulate_turn 5 10 [(''B'', 2)] (\<lparr>turn_start = 10, turn_end = 12\<rparr>, ''A'') = [(''B'', 2)]"
proof -
  have h1: "turn_end \<lparr>turn_start = 0, turn_end = 5\<rparr> = 5 \<or> turn_start \<lparr>turn_start = 0, turn_end = 5\<rparr> = 10"
    by simp
  have h2: "turn_end \<lparr>turn_start = 10, turn_end = 12\<rparr> = 5 \<or> turn_start \<lparr>turn_start = 10, turn_end = 12\<rparr> = 10"
    by simp
  note t1 = abutting_turn_contributes_nothing [OF h1, of "[]" "''A''" "[]"
    "[(\<lparr>turn_start = 6, turn_end = 8\<rparr>, ''B''), (\<lparr>turn_start = 10, turn_end = 12\<rparr>, ''A'')]"]
  note t2 = abutting_turn_contributes_nothing [OF h2, of "[(''B'', 2)]" "''A''" "[]" "[]"]
  have c: "speaker_time_of touching_turns 5 10 = [(''B'', 2)]"
    by (simp add: touching_turns_def attribution_defs)
  show ?thesis using t1 t2 c by (simp add: touching_turns_def)
qed

text \<open>
  Claim C9.  The result is the speaker of maximal accumulated sum that entered the dict
  first.  The turn list splits at the first positively overlapping turn \<open>t\<close> of the returned
  speaker: every positively overlapping turn before \<open>t\<close> belongs to a speaker whose
  accumulated sum is strictly smaller (so none of them is the returned speaker or a speaker
  tied with it), and no speaker at all has a larger accumulated sum.
\<close>

theorem get_speaker_for_time_tie_break:
  "(\<exists>ts\<in>set d. 0 < overlap (fst ts) s e) \<Longrightarrow>
     \<exists>dpre t dpost.
       d = dpre @ (t, get_speaker_for_time d s e) # dpost \<and> 0 < overlap t s e \<and>
       (\<forall>ts\<in>set dpre. 0 < overlap (fst ts) s e \<longrightarrow>
          accumulated d s e (snd ts) < accumulated d s e (get_speaker_for_time d s e)) \<and>
       (\<forall>k. accumulated d s e k \<le> accumulated d s e (get_speaker_for_time d s e)) \<and>
       (\<forall>k. dict_get (speaker_time_of d s e) k 0 = accumulated d s e k)"
proof -
  let ?r = "get_speaker_for_time d s e"
  assume "\<exists>ts\<in>set d. 0 < overlap (fst ts) s e"
  then have ne: "speaker_time_of d s e \<noteq> []"
    by (rule speaker_time_of_nonempty)
  from get_speaker_for_time_first_max [OF ne] obtain pre post where
    ks: "dict_keys (speaker_time_of d s e) = pre @ ?r # post" and
    p: "\<forall>k\<in>set pre. accumulated d s e k < accumulated d s e ?r" by blast
  have "dict_keys (foldl (accumulate_turn s e) [] d) = pre @ ?r # post"
    using ks by (simp add: speaker_time_of_def)
  from first_inserted [OF this] obtain dpre t dpost where
    d: "d = dpre @ (t, ?r) # dpost" and pos: "0 < overlap t s e" and
    b: "\<forall>ts\<in>set dpre. 0 < overlap (fst ts) s e \<longrightarrow> snd ts \<in> set pre"
    by (auto simp: dict_keys_def)
  have "\<forall>ts\<in>set dpre. 0 < overlap (fst ts) s e \<longrightarrow>
          accumulated d s e (snd ts) < accumulated d s e ?r"
    using b p by blast
  moreover have "\<forall>k. accumulated d s e k \<le> accumulated d s e ?r"
    using get_speaker_for_time_max(4) [OF ne] by blast
  moreover have "\<forall>k. dict_get (speaker_time_of d s e) k 0 = accumulated d s e k"
    by (simp add: get_speaker_time_of)
  ultimately show ?thesis using d pos by blast
qed

theorem get_speaker_for_time_tie_break_witness:
  "accumulated tied_turns 1 8 ''B'' = 3 \<and> accumulated tied_turns 1 8 ''A'' = 3 \<and>
   get_speaker_for_time tied_turns 1 8 = ''B'' \<and>
   get_speaker_for_time (rev tied_turns) 1 8 = ''A'' \<and>
   (\<exists>dpre t dpost. tied_turns = dpre @ (t, ''B'') # dpost \<and> 0 < overlap t 1 8 \<and>
       (\<forall>ts\<in>set dpre. 0 < overlap (fst ts) 1 8 \<longrightarrow>
          accumulated tied_turns 1 8 (snd ts) < accumulated tied_turns 1 8 ''B''))"
proof -
  have h: "\<exists>ts\<in>set tied_turns. 0 < overlap (fst ts) 1 8"
    by (simp add: tied_turns_def overlap_def)
  have r: "get_speaker_for_time tied_turns 1 8 = ''B''"
    by (simp add: tied_turns_def attribution_defs)
  have r': "get_speaker_for_time (rev tied_turns) 1 8 = ''A''"
    by (simp add: tied_turns_def attribution_defs)
  have t: "accumulated tied_turns 1 8 ''B'' = 3" "accumulated tied_turns 1 8 ''A'' = 3"
    by (simp_all add: tied_turns_def attribution_defs)
  from get_speaker_for_time_tie_break [OF h] have
    "\<exists>dpre t dpost. tied_turns = dpre @ (t, ''B'') # dpost \<and> 0 < overlap t 1 8 \<and>
       (\<forall>ts\<in>set dpre. 0 < overlap (fst ts) 1 8 \<longrightarrow>
          accumulated tied_turns 1 8 (snd ts) < accumulated tied_turns 1 8 ''B'')"
    unfolding r by blast
  with r r' t show ?thesis by blast
qed

text \<open>
  Claim C10.  A result other than \<open>Unknown Speaker\<close> is a key of the dict and has a
  strictly positive total overlap; every key of the dict holds a strictly positive value.
  A speaker all of whose turns have overlap zero is not a key of the dict, and the result
  can equal its label only when the dict is empty and the label is the string
  \<open>Unknown Speaker\<close> itself.
\<close>

theorem returned_speaker_has_positive_overlap:
  "(get_speaker_for_time d s e \<noteq> ''Unknown Speaker'' \<longrightarrow>
      0 < total_overlap d s e (get_speaker_for_time d s e) \<and>
      get_speaker_for_time d s e \<in> set (dict_keys (speaker_time_of d s e))) \<and>
   (\<forall>k\<in>set (dict_keys (speaker_time_of d s e)).
      0 < dict_get (speaker_time_of d s e) k 0 \<and> 0 < total_overlap d s e k) \<and>
   ((\<forall>t. (t, sp) \<in> set d \<longrightarrow> overlap t s e = 0) \<longrightarrow>
      total_overlap d s e sp = 0 \<and>
      sp \<notin> set (dict_keys (speaker_time_of d s e)) \<and>
      (get_speaker_for_time d s e = sp \<longrightarrow>
         sp = ''Unknown Speaker'' \<and> speaker_time_of d s e = []))"
proof (intro conjI impI ballI)
  assume n: "get_speaker_for_time d s e \<noteq> ''Unknown Speaker''"
  then have ne: "speaker_time_of d s e \<noteq> []" using get_speaker_for_time_unknown by blast
  show pos: "0 < total_overlap d s e (get_speaker_for_time d s e)"
    by (rule get_speaker_for_time_max(2) [OF ne])
  show "get_speaker_for_time d s e \<in> set (dict_keys (speaker_time_of d s e))"
    by (rule get_speaker_for_time_max(1) [OF ne])
next
  fix k assume "k \<in> set (dict_keys (speaker_time_of d s e))"
  then show t: "0 < total_overlap d s e k" by (simp add: keys_speaker_time_of)
  then have "0 < accumulated d s e k" by (simp add: accumulated_pos_iff total_overlap_pos_iff)
  then show "0 < dict_get (speaker_time_of d s e) k 0" by (simp add: get_speaker_time_of)
next
  assume z: "\<forall>t. (t, sp) \<in> set d \<longrightarrow> overlap t s e = 0"
  then have "\<not> 0 < total_overlap d s e sp" by (auto simp: total_overlap_pos_iff)
  then show t0: "total_overlap d s e sp = 0" using total_overlap_nonneg [of d s e sp] by linarith
  then show nk: "sp \<notin> set (dict_keys (speaker_time_of d s e))" by (simp add: keys_speaker_time_of)
  assume r: "get_speaker_for_time d s e = sp"
  show e: "speaker_time_of d s e = []"
  proof (rule ccontr)
    assume "speaker_time_of d s e \<noteq> []"
    from get_speaker_for_time_max(2) [OF this] t0 r show False by simp
  qed
  then show "sp = ''Unknown Speaker''" using r get_speaker_for_time_unknown by blast
qed

theorem returned_speaker_has_positive_overlap_witness:
  "get_speaker_for_time touching_turns 5 10 = ''B'' \<and>
   0 < total_overlap touching_turns 5 10 ''B'' \<and>
   total_overlap touching_turns 5 10 ''A'' = 0 \<and>
   ''A'' \<notin> set (dict_keys (speaker_time_of touching_turns 5 10)) \<and>
   get_speaker_for_time touching_turns 5 10 \<noteq> ''A''"
proof -
  have r: "get_speaker_for_time touching_turns 5 10 = ''B''"
    by (simp add: touching_turns_def attribution_defs)
  have h1: "get_speaker_for_time touching_turns 5 10 \<noteq> ''Unknown Speaker''"
    unfolding r by simp
  have h2: "\<forall>t. (t, ''A'') \<in> set touching_turns \<longrightarrow> overlap t 5 10 = 0"
    by (auto simp: touching_turns_def overlap_def)
  note th = returned_speaker_has_positive_overlap [of touching_turns 5 10 "''A''"]
  have "0 < total_overlap touching_turns 5 10 ''B''" using th h1 unfolding r by blast
  moreover have "total_overlap touching_turns 5 10 ''A'' = 0 \<and>
    ''A'' \<notin> set (dict_keys (speaker_time_of touching_turns 5 10))" using th h2 by blast
  moreover have "get_speaker_for_time touching_turns 5 10 \<noteq> ''A''" unfolding r by simp
  ultimately show ?thesis using r by blast
qed

section \<open>Properties of transcript formatting\<close>

lemma decimal_small: "n < 10 \<Longrightarrow> decimal n = [digit_char n]"
  by (subst decimal.simps) simp

lemma decimal_large: "\<not> n < 10 \<Longrightarrow> decimal n = decimal (n div 10) @ [digit_char n]"
  by (subst decimal.simps) simp

lemma length_decimal_pos: "0 < length (decimal n)"
  by (subst decimal.simps) simp

lemma length_decimal_2: "10 \<le> n \<Longrightarrow> n < 100 \<Longrightarrow> length (decimal n) = 2"
  by (simp add: decimal_large decimal_small)

lemma length_decimal_ge3: "100 \<le> n \<Longrightarrow> 3 \<le> length (decimal n)"
proof -
  assume a: "100 \<le> n"
  then have b: "\<not> n div 10 < 10" by simp
  have c: "\<not> n < 10" using a by simp
  have "0 < length (decimal (n div 10 div 10))" by (rule length_decimal_pos)
  then have "Suc 0 \<le> length (decimal (n div 10 div 10))" by linarith
  then show ?thesis unfolding decimal_large [OF c] decimal_large [OF b] by simp
qed

lemma length_format_02d: "0 \<le> n \<Longrightarrow> n < 100 \<Longrightarrow> length (format_02d n) = 2"
proof -
  assume a: "0 \<le> n" "n < 100"
  show ?thesis
  proof (cases "n < 10")
    case True
    then have "nat n < 10" using a by simp
    then show ?thesis using a by (simp add: format_02d_def str_int_def decimal_small)
  next
    case False
    then have "10 \<le> nat n" "nat n < 100" using a by simp_all
    then have "length (decimal (nat n)) = 2" by (rule length_decimal_2)
    then show ?thesis using a by (simp add: format_02d_def str_int_def)
  qed
qed

lemma format_02d_large: "100 \<le> n \<Longrightarrow> format_02d n = decimal (nat n) \<and> 3 \<le> length (format_02d n)"
proof -
  assume a: "100 \<le> n"
  then have "3 \<le> length (decimal (nat n))" by (simp add: length_decimal_ge3)
  then show ?thesis using a by (simp add: format_02d_def str_int_def)
qed

lemma py_int_of_int: "py_int (of_int n) = n"
  by (simp add: py_int_def)

lemma py_int_nonneg: "0 \<le> x \<Longrightarrow> py_int x = \<lfloor>x\<rfloor>"
  by (simp add: py_int_def)

lemma floor_div_3600: "\<lfloor>(x::real) / 3600\<rfloor> = \<lfloor>x\<rfloor> div 3600"
  using floor_divide_real_eq_div [of 3600 x] by simp

lemma floor_div_60: "\<lfloor>(x::real) / 60\<rfloor> = \<lfloor>x\<rfloor> div 60"
  using floor_divide_real_eq_div [of 60 x] by simp

lemma hours_eq: "py_int (py_floordiv x 3600) = \<lfloor>x\<rfloor> div 3600"
  by (simp add: py_floordiv_def py_int_of_int floor_div_3600)

lemma floor_py_mod_3600: "\<lfloor>py_mod x 3600\<rfloor> = \<lfloor>x\<rfloor> mod 3600"
proof -
  have "py_mod x 3600 = x - of_int (3600 * (\<lfloor>x\<rfloor> div 3600))"
    by (simp add: py_mod_def floor_div_3600)
  then have "\<lfloor>py_mod x 3600\<rfloor> = \<lfloor>x\<rfloor> - 3600 * (\<lfloor>x\<rfloor> div 3600)"
    by (simp only: floor_diff_of_int)
  then show ?thesis by (simp add: minus_mult_div_eq_mod)
qed

lemma floor_py_mod_60: "\<lfloor>py_mod x 60\<rfloor> = \<lfloor>x\<rfloor> mod 60"
proof -
  have "py_mod x 60 = x - of_int (60 * (\<lfloor>x\<rfloor> div 60))"
    by (simp add: py_mod_def floor_div_60)
  then have "\<lfloor>py_mod x 60\<rfloor> = \<lfloor>x\<rfloor> - 60 * (\<lfloor>x\<rfloor> div 60)"
    by (simp only: floor_diff_of_int)
  then show ?thesis by (simp add: minus_mult_div_eq_mod)
qed

lemma py_mod_nonneg: "0 < y \<Longrightarrow> 0 \<le> py_mod x y"
proof -
  assume y: "0 < y"
  have "of_int \<lfloor>x / y\<rfloor> \<le> x / y" by simp
  then have "of_int \<lfloor>x / y\<rfloor> * y \<le> x" using y by (simp only: pos_le_divide_eq)
  then have "y * of_int \<lfloor>x / y\<rfloor> \<le> x" by (simp only: mult.commute)
  then show ?thesis by (simp add: py_mod_def)
qed

lemma minutes_eq: "py_int (py_floordiv (py_mod x 3600) 60) = \<lfloor>x\<rfloor> mod 3600 div 60"
  by (simp add: py_floordiv_def py_int_of_int floor_div_60 floor_py_mod_3600)

lemma secs_eq: "py_int (py_mod x 60) = \<lfloor>x\<rfloor> mod 60"
  by (simp add: py_int_nonneg py_mod_nonneg floor_py_mod_60)

lemma format_time_int:
  "format_time seconds =
     format_02d (\<lfloor>seconds\<rfloor> div 3600) @ '':'' @ format_02d (\<lfloor>seconds\<rfloor> mod 3600 div 60)
       @ '':'' @ format_02d (\<lfloor>seconds\<rfloor> mod 60)"
  unfolding format_time_def Let_def hours_eq minutes_eq secs_eq ..

lemmas format_time_eval =
  format_time_int format_02d_def str_int_def decimal_small decimal_large digit_char_def

lemma format_segment_first:
  "format_segment (out, None) seg = (out @ block_header seg @ text_line seg, Some (seg_speaker seg))"
  by (simp add: format_segment_def Let_def block_header_def text_line_def)

lemma format_segment_same:
  "seg_speaker seg = sp \<Longrightarrow>
   format_segment (out, Some sp) seg = (out @ text_line seg, Some sp)"
  by (simp add: format_segment_def Let_def text_line_def)

lemma format_segment_change:
  "seg_speaker seg \<noteq> sp \<Longrightarrow>
   format_segment (out, Some sp) seg =
     (out @ NL @ block_header seg @ text_line seg, Some (seg_speaker seg))"
  by (simp add: format_segment_def Let_def block_header_def text_line_def)

lemma rendered_at_append:
  assumes "i < length segs"
  shows "rendered_at (segs @ rest) i = rendered_at segs i"
proof -
  have a: "(segs @ rest) ! i = segs ! i" using assms by (simp add: nth_append)
  have b: "(segs @ rest) ! (i - 1) = segs ! (i - 1)" using assms by (simp add: nth_append)
  show ?thesis unfolding rendered_at_def starts_block_def a b ..
qed

lemma rendered_prefix:
  "map (rendered_at (segs @ rest)) [0..<length segs] = map (rendered_at segs) [0..<length segs]"
  by (rule map_cong) (simp_all add: rendered_at_append)

lemma rendered_at_last:
  "rendered_at (segs @ [seg]) (length segs) =
     (if segs = [] then block_header seg @ text_line seg
      else if seg_speaker seg \<noteq> seg_speaker (last segs) then NL @ block_header seg @ text_line seg
      else text_line seg)"
proof (cases "segs = []")
  case True
  then show ?thesis by (simp add: rendered_at_def starts_block_def)
next
  case False
  then have l: "0 < length segs" by simp
  then have "(segs @ [seg]) ! (length segs - 1) = last segs"
    using False by (simp add: nth_append last_conv_nth)
  then show ?thesis using False by (simp add: rendered_at_def starts_block_def)
qed

lemma foldl_format_segment:
  "foldl format_segment (out, None) segs =
     (out @ concat (map (rendered_at segs) [0..<length segs]),
      if segs = [] then None else Some (seg_speaker (last segs)))"
proof (induction segs rule: rev_induct)
  case Nil
  show ?case by simp
next
  case (snoc seg segs)
  have u: "[0..<length (segs @ [seg])] = [0..<length segs] @ [length segs]" by simp
  have c: "concat (map (rendered_at (segs @ [seg])) [0..<length (segs @ [seg])]) =
    concat (map (rendered_at segs) [0..<length segs]) @ rendered_at (segs @ [seg]) (length segs)"
    unfolding u by (simp add: rendered_prefix)
  show ?case
  proof (cases "segs = []")
    case True
    then show ?thesis by (simp add: format_segment_first rendered_at_def starts_block_def)
  next
    case False
    show ?thesis
    proof (cases "seg_speaker seg = seg_speaker (last segs)")
      case True
      show ?thesis unfolding c rendered_at_last
        using False True by (simp add: snoc format_segment_same)
    next
      case ne: False
      show ?thesis unfolding c rendered_at_last
        using False ne by (simp add: snoc format_segment_change)
    qed
  qed
qed

lemma format_transcript_rendered:
  "format_transcript segments segment_num =
     preamble segment_num @ concat (map (rendered_at segments) [0..<length segments]) @ NL"
  by (simp add: format_transcript_def Let_def foldl_format_segment preamble_def)

lemma upt_3: "[0..<3] = [0, 1, 2]"
  by (simp add: upt_rec)

text \<open>
  Claim C3.  After the preamble, the output is the concatenation, in the order of the given
  list, of what each position adds: a block header (timestamp of the segment's start and
  speaker label, after an empty line unless it is the first) followed by the text line at
  position \<open>0\<close> and at every position whose speaker differs from the speaker just before,
  and the text line alone elsewhere.  Nothing in it looks at the order of the start times.
  On the three segments of the specification's example, whatever their end times, blocks
  start at positions \<open>0\<close> and \<open>2\<close>: a header for \<open>A\<close> with two lines and a header for
  \<open>B\<close> with one line.
\<close>

theorem format_transcript_blocks:
  "format_transcript segments segment_num =
     preamble segment_num @ concat (map (rendered_at segments) [0..<length segments]) @ NL \<and>
   filter (starts_block (spec_example_segments e1 e2 e3)) [0..<3] = [0, 2] \<and>
   format_transcript (spec_example_segments e1 e2 e3) segment_num =
     preamble segment_num
       @ ''[00:00:00] A:'' @ NL @ ''  hi'' @ NL @ ''  there'' @ NL
       @ NL @ ''[00:00:05] B:'' @ NL @ ''  hello'' @ NL
       @ NL"
proof (intro conjI)
  show "format_transcript segments segment_num =
     preamble segment_num @ concat (map (rendered_at segments) [0..<length segments]) @ NL"
    by (rule format_transcript_rendered)
  show "filter (starts_block (spec_example_segments e1 e2 e3)) [0..<3] = [0, 2]"
    by (simp add: upt_3 starts_block_def spec_example_segments_def)
  have t: "format_time 0 = ''00:00:00''" "format_time 5 = ''00:00:05''"
    by (simp_all add: format_time_eval)
  show "format_transcript (spec_example_segments e1 e2 e3) segment_num =
     preamble segment_num
       @ ''[00:00:00] A:'' @ NL @ ''  hi'' @ NL @ ''  there'' @ NL
       @ NL @ ''[00:00:05] B:'' @ NL @ ''  hello'' @ NL
       @ NL"
    unfolding format_transcript_rendered
    by (simp add: spec_example_segments_def upt_3 rendered_at_def starts_block_def
        block_header_def text_line_def t)
qed

theorem format_transcript_blocks_witness:
  "format_transcript unsorted_segments 7 =
     NL @ banner @ NL @ ''SEGMENT 7'' @ NL @ banner @ NL @ NL
       @ ''[00:00:05] A:'' @ NL @ ''  one'' @ NL
       @ NL @ ''[00:00:00] B:'' @ NL @ ''  two'' @ NL
       @ NL @ ''[00:00:02] A:'' @ NL @ ''  three'' @ NL
       @ NL"
proof -
  have t: "format_time 0 = ''00:00:00''" "format_time 5 = ''00:00:05''"
    "format_time 2 = ''00:00:02''"
    by (simp_all add: format_time_eval)
  have l: "[0..<length unsorted_segments] = [0, 1, 2]"
    by (simp add: unsorted_segments_def upt_3)
  have p: "preamble 7 = NL @ banner @ NL @ ''SEGMENT 7'' @ NL @ banner @ NL @ NL"
    by (simp add: preamble_def str_int_def decimal_small digit_char_def)
  from format_transcript_blocks [of unsorted_segments 7]
  have "format_transcript unsorted_segments 7 =
     preamble 7 @ concat (map (rendered_at unsorted_segments) [0..<length unsorted_segments]) @ NL"
    by blast
  then show ?thesis unfolding l p
    by (simp add: unsorted_segments_def rendered_at_def starts_block_def
        block_header_def text_line_def t)
qed

text \<open>
  Claim C4.  \<open>format_time\<close> renders the whole seconds \<open>\<lfloor>seconds\<rfloor>\<close> as hours, minutes and
  seconds, each zero-padded to two digits: the fraction of a second is dropped, never
  rounded.  For non-negative input the three fields are the floors the source computes.
  Below 100 hours the string has eight characters; from 100 hours on the hour field is the
  plain decimal number of hours, three digits or more.  \<open>format_time 3661\<close> is
  \<open>01:01:01\<close> and \<open>format_time 59\<close> is \<open>00:00:59\<close>.
\<close>

theorem format_time_truncates:
  "format_time seconds =
     format_02d (\<lfloor>seconds\<rfloor> div 3600) @ '':'' @ format_02d (\<lfloor>seconds\<rfloor> mod 3600 div 60)
       @ '':'' @ format_02d (\<lfloor>seconds\<rfloor> mod 60) \<and>
   format_time seconds = format_time (of_int \<lfloor>seconds\<rfloor>) \<and>
   (0 \<le> seconds \<longrightarrow>
      py_int (py_floordiv seconds 3600) = \<lfloor>seconds / 3600\<rfloor> \<and>
      py_int (py_floordiv (py_mod seconds 3600) 60) = \<lfloor>py_mod seconds 3600 / 60\<rfloor> \<and>
      py_int (py_mod seconds 60) = \<lfloor>py_mod seconds 60\<rfloor>) \<and>
   (0 \<le> seconds \<and> seconds < 360000 \<longrightarrow> length (format_time seconds) = 8) \<and>
   (360000 \<le> seconds \<longrightarrow>
      format_02d (\<lfloor>seconds\<rfloor> div 3600) = decimal (nat (\<lfloor>seconds\<rfloor> div 3600)) \<and>
      9 \<le> length (format_time seconds)) \<and>
   format_time 3661 = ''01:01:01'' \<and>
   format_time 59 = ''00:00:59''"
proof (intro conjI impI)
  show i: "format_time seconds =
     format_02d (\<lfloor>seconds\<rfloor> div 3600) @ '':'' @ format_02d (\<lfloor>seconds\<rfloor> mod 3600 div 60)
       @ '':'' @ format_02d (\<lfloor>seconds\<rfloor> mod 60)"
    by (rule format_time_int)
  show "format_time seconds = format_time (of_int \<lfloor>seconds\<rfloor>)"
    by (simp add: format_time_int)
  show "py_int (py_floordiv seconds 3600) = \<lfloor>seconds / 3600\<rfloor>"
    by (simp add: hours_eq floor_div_3600)
  show "py_int (py_floordiv (py_mod seconds 3600) 60) = \<lfloor>py_mod seconds 3600 / 60\<rfloor>"
    by (simp add: py_floordiv_def py_int_of_int)
  show "py_int (py_mod seconds 60) = \<lfloor>py_mod seconds 60\<rfloor>"
    by (simp add: py_int_nonneg py_mod_nonneg)
  have m: "length (format_02d (\<lfloor>seconds\<rfloor> mod 3600 div 60)) = 2"
    by (rule length_format_02d) arith+
  have s: "length (format_02d (\<lfloor>seconds\<rfloor> mod 60)) = 2"
    by (rule length_format_02d) simp_all
  {
    assume a: "0 \<le> seconds \<and> seconds < 360000"
    then have "0 \<le> \<lfloor>seconds\<rfloor>" "\<lfloor>seconds\<rfloor> < 360000" by (simp_all add: floor_less_iff)
    then have "0 \<le> \<lfloor>seconds\<rfloor> div 3600" "\<lfloor>seconds\<rfloor> div 3600 < 100"
      by arith+
    then have "length (format_02d (\<lfloor>seconds\<rfloor> div 3600)) = 2" by (rule length_format_02d)
    then show "length (format_time seconds) = 8" unfolding i using m s by simp
  }
  {
    assume a: "360000 \<le> seconds"
    then have "360000 \<le> \<lfloor>seconds\<rfloor>" by (simp add: le_floor_iff)
    then have "100 \<le> \<lfloor>seconds\<rfloor> div 3600" by arith
    from format_02d_large [OF this]
    have l: "format_02d (\<lfloor>seconds\<rfloor> div 3600) = decimal (nat (\<lfloor>seconds\<rfloor> div 3600))"
      and g: "3 \<le> length (format_02d (\<lfloor>seconds\<rfloor> div 3600))" by blast+
    show "format_02d (\<lfloor>seconds\<rfloor> div 3600) = decimal (nat (\<lfloor>seconds\<rfloor> div 3600))"
      by (rule l)
    have "length (format_time seconds) =
      length (format_02d (\<lfloor>seconds\<rfloor> div 3600)) + 6" unfolding i using m s by simp
    then show "9 \<le> length (format_time seconds)" using g by linarith
  }
  show "format_time 3661 = ''01:01:01''" by (simp add: format_time_eval)
  show "format_time 59 = ''00:00:59''" by (simp add: format_time_eval)
qed

theorem format_time_truncates_witness:
  "format_time (599 / 10) = ''00:00:59'' \<and>
   format_time (599 / 10) = format_time 59 \<and>
   py_int (py_floordiv (7325 + 1 / 2) 3600) = 2 \<and>
   py_int (py_floordiv (py_mod (7325 + 1 / 2) 3600) 60) = 2 \<and>
   py_int (py_mod (7325 + 1 / 2) 60) = 5 \<and>
   length (format_time (599 / 10)) = 8 \<and>
   format_time 360000 = ''100:00:00'' \<and>
   9 \<le> length (format_time 360000)"
proof -
  have h1: "(0::real) \<le> 599 / 10 \<and> (599::real) / 10 < 360000" by simp
  have h2: "(0::real) \<le> 7325 + 1 / 2" by simp
  have h3: "(360000::real) \<le> 360000" by simp
  note a = format_time_truncates [of "599 / 10"]
  note b = format_time_truncates [of "7325 + 1 / 2"]
  note c = format_time_truncates [of 360000]
  have f: "\<lfloor>(599::real) / 10\<rfloor> = 59" by simp
  have "format_time (599 / 10) = format_time (of_int \<lfloor>(599::real) / 10\<rfloor>)" using a by blast
  then have a1: "format_time (599 / 10) = format_time 59" unfolding f by simp
  have "format_time 59 = ''00:00:59''" using a by blast
  then have a2: "format_time (599 / 10) = ''00:00:59''" unfolding a1 .
  have a3: "length (format_time (599 / 10)) = 8" using a h1 by blast
  have g: "\<lfloor>(7325::real) + 1 / 2\<rfloor> = 7325" by linarith
  have b1: "py_int (py_floordiv (7325 + 1 / 2) 3600) = 2"
    by (simp add: hours_eq g)
  have b2: "py_int (py_floordiv (py_mod (7325 + 1 / 2) 3600) 60) = 2"
    by (simp add: minutes_eq g)
  have b3: "py_int (py_mod (7325 + 1 / 2) 60) = 5"
    by (simp add: secs_eq g)
  have c1: "9 \<le> length (format_time 360000)" using c h3 by blast
  have c2: "format_time 360000 = ''100:00:00''" by (simp add: format_time_eval)
  show ?thesis using a1 a2 a3 b1 b2 b3 c1 c2 by blast
qed


section \<open>Properties of the recording session\<close>

lemma record_segment_Elapsed:
  "record_segment clock SEGMENT_SECONDS segment_start k mic i frames0 budget =
     Elapsed frames k' i' budget' \<Longrightarrow>
   \<exists>n. frames = frames0 @ map mic [i..<i + n] \<and> k' = Suc (k + n) \<and> i' = i + n \<and>
       budget = budget' + n \<and>
       (\<forall>j<n. fl_sub (clock (k + j)) segment_start < SEGMENT_SECONDS) \<and>
       \<not> fl_sub (clock (k + n)) segment_start < SEGMENT_SECONDS"
proof (induction clock SEGMENT_SECONDS segment_start k mic i frames0 budget
    rule: record_segment.induct)
  case (1 clock SEGMENT_SECONDS segment_start k mic i frames0)
  then have "frames = frames0 @ map mic [i..<i + 0] \<and> k' = Suc (k + 0) \<and> i' = i + 0 \<and>
       0 = budget' + 0 \<and>
       (\<forall>j<0. fl_sub (clock (k + j)) segment_start < SEGMENT_SECONDS) \<and>
       \<not> fl_sub (clock (k + 0)) segment_start < SEGMENT_SECONDS"
    by (auto split: if_splits)
  then show ?case by blast
next
  case (2 clock SEGMENT_SECONDS segment_start k mic i frames0 budget)
  show ?case
  proof (cases "fl_sub (clock k) segment_start < SEGMENT_SECONDS")
    case True
    with 2 obtain n where n:
      "frames = (frames0 @ [mic i]) @ map mic [Suc i..<Suc i + n]" "k' = Suc (Suc k + n)"
      "i' = Suc i + n" "budget = budget' + n"
      "\<forall>j<n. fl_sub (clock (Suc k + j)) segment_start < SEGMENT_SECONDS"
      "\<not> fl_sub (clock (Suc k + n)) segment_start < SEGMENT_SECONDS" by auto
    have u: "[i..<i + Suc n] = i # [Suc i..<Suc i + n]" by (simp add: upt_conv_Cons)
    have p: "\<forall>j<Suc n. fl_sub (clock (k + j)) segment_start < SEGMENT_SECONDS"
    proof (intro allI impI)
      fix j assume "j < Suc n"
      then show "fl_sub (clock (k + j)) segment_start < SEGMENT_SECONDS"
        using True n(5) by (cases j) simp_all
    qed
    have "frames = frames0 @ map mic [i..<i + Suc n] \<and> k' = Suc (k + Suc n) \<and>
      i' = i + Suc n \<and> Suc budget = budget' + Suc n \<and>
      (\<forall>j<Suc n. fl_sub (clock (k + j)) segment_start < SEGMENT_SECONDS) \<and>
      \<not> fl_sub (clock (k + Suc n)) segment_start < SEGMENT_SECONDS"
      unfolding u using n p by simp
    then show ?thesis by blast
  next
    case False
    with 2 have "frames = frames0 @ map mic [i..<i + 0] \<and> k' = Suc (k + 0) \<and> i' = i + 0 \<and>
       Suc budget = budget' + 0 \<and>
       (\<forall>j<0. fl_sub (clock (k + j)) segment_start < SEGMENT_SECONDS) \<and>
       \<not> fl_sub (clock (k + 0)) segment_start < SEGMENT_SECONDS"
      by auto
    then show ?thesis by blast
  qed
qed

lemma record_segment_Interrupted:
  "record_segment clock SEGMENT_SECONDS segment_start k mic i frames0 budget =
     Interrupted frames \<Longrightarrow>
   frames = frames0 @ map mic [i..<i + budget] \<and>
   (\<forall>j<budget. fl_sub (clock (k + j)) segment_start < SEGMENT_SECONDS)"
proof (induction clock SEGMENT_SECONDS segment_start k mic i frames0 budget
    rule: record_segment.induct)
  case (1 clock SEGMENT_SECONDS segment_start k mic i frames0)
  then show ?case by (auto split: if_splits)
next
  case (2 clock SEGMENT_SECONDS segment_start k mic i frames0 budget)
  show ?case
  proof (cases "fl_sub (clock k) segment_start < SEGMENT_SECONDS")
    case True
    with 2 have ih: "frames = (frames0 @ [mic i]) @ map mic [Suc i..<Suc i + budget]"
      "\<forall>j<budget. fl_sub (clock (Suc k + j)) segment_start < SEGMENT_SECONDS" by auto
    have u: "[i..<i + Suc budget] = i # [Suc i..<Suc i + budget]" by (simp add: upt_conv_Cons)
    have "\<forall>j<Suc budget. fl_sub (clock (k + j)) segment_start < SEGMENT_SECONDS"
    proof (intro allI impI)
      fix j assume "j < Suc budget"
      then show "fl_sub (clock (k + j)) segment_start < SEGMENT_SECONDS"
        using True ih(2) by (cases j) simp_all
    qed
    then show ?thesis unfolding u using ih(1) by simp
  next
    case False
    with 2 show ?thesis by simp
  qed
qed

lemma stream_reads_append: "stream_reads (xs @ ys) = stream_reads xs @ stream_reads ys"
  by (induction xs rule: stream_reads.induct) simp_all

lemma wav_written_append: "wav_written (xs @ ys) = wav_written xs @ wav_written ys"
  by (induction xs rule: wav_written.induct) simp_all

lemma stream_reads_map: "stream_reads (map StreamRead frames) = frames"
  by (induction frames) simp_all

lemma wav_written_map: "wav_written (map StreamRead frames) = []"
  by (induction frames) simp_all

lemma stream_reads_segment_events:
  "stream_reads (segment_events target session_dir n frames) = frames"
  by (simp add: segment_events_def stream_reads_append stream_reads_map)

lemma wav_written_segment_events:
  "wav_written (segment_events target session_dir n frames) = [concat frames]"
  by (simp add: segment_events_def wav_written_append wav_written_map)

lemma stream_reads_completed_events:
  "stream_reads (completed_events target session_dir n completed) = concat completed"
  by (induction completed arbitrary: n)
     (simp_all add: stream_reads_append stream_reads_segment_events)

lemma wav_written_completed_events:
  "wav_written (completed_events target session_dir n completed) = map concat completed"
  by (induction completed arbitrary: n)
     (simp_all add: wav_written_append wav_written_segment_events)

lemma stream_reads_ending:
  "concat (stream_reads (ending_events session_dir n ending)) =
   concat (wav_written (ending_events session_dir n ending)) @ concat (dropped_frames ending)"
  by (cases ending)
     (simp_all add: stream_reads_append wav_written_append stream_reads_map wav_written_map)

lemma no_thread_in_ending:
  "ThreadStart tg f j \<notin> set (ending_events session_dir n ending)"
  by (cases ending) auto

lemma split_after_prefix:
  "xs @ ys = pre @ x # post \<Longrightarrow> x \<notin> set xs \<Longrightarrow> \<exists>pre'. pre = xs @ pre' \<and> ys = pre' @ x # post"
proof (induction xs arbitrary: pre)
  case Nil
  then show ?case by simp
next
  case (Cons a xs)
  show ?case
  proof (cases pre)
    case Nil
    with Cons.prems show ?thesis by simp
  next
    case (Cons b pre0)
    with Cons.prems have "a = b" "xs @ ys = pre0 @ x # post" "x \<notin> set xs" by simp_all
    with Cons.IH [of pre0] Cons show ?thesis by auto
  qed
qed

lemma thread_start_after_save:
  assumes "completed_events target session_dir n completed @ final = pre @ ThreadStart tg f k # post"
    and "ThreadStart tg f k \<notin> set final"
  shows "\<exists>pre' bytes. pre = pre' @ [WavWrite f bytes]"
  using assms
proof (induction completed arbitrary: n pre)
  case Nil
  then have "ThreadStart tg f k \<in> set final" by simp
  with Nil show ?case by simp
next
  case (Cons frames rest)
  define A where "A = Print (recording_line n) # map StreamRead frames @
    [WavWrite (segment_wav session_dir n) (concat frames)]"
  define tr' where "tr' = completed_events target session_dir (n + 1) rest @ final"
  have a: "A @ (ThreadStart target (segment_wav session_dir n) n # tr') = pre @ ThreadStart tg f k # post"
    using Cons.prems(1) by (simp add: A_def tr'_def segment_events_def)
  have "ThreadStart tg f k \<notin> set A" by (auto simp: A_def)
  from split_after_prefix [OF a this] obtain pre' where
    p: "pre = A @ pre'" and q: "ThreadStart target (segment_wav session_dir n) n # tr' = pre' @ ThreadStart tg f k # post"
    by blast
  show ?case
  proof (cases pre')
    case Nil
    have "f = segment_wav session_dir n" using q unfolding Nil by auto
    then have "pre = (Print (recording_line n) # map StreamRead frames) @ [WavWrite f (concat frames)]"
      using p Nil by (simp add: A_def)
    then show ?thesis by blast
  next
    case (Cons b pre'')
    then have "tr' = pre'' @ ThreadStart tg f k # post" using q by simp
    from Cons.IH [OF this [unfolded tr'_def] Cons.prems(2)] obtain p' bytes where
      "pre'' = p' @ [WavWrite f bytes]" by blast
    then have "pre = (A @ b # p') @ [WavWrite f bytes]" using p Cons by simp
    then show ?thesis by blast
  qed
qed

lemma length_segment_events:
  "length (segment_events target session_dir n frames) = length frames + 3"
  by (simp add: segment_events_def)

lemma record_loop_shape:
  "\<exists>completed ending.
     record_loop target session_dir SEGMENT_SECONDS clock mic k i segment_num budget =
       completed_events target session_dir segment_num completed @
       ending_events session_dir (segment_num + int (length completed)) ending \<and>
     completed_ok clock SEGMENT_SECONDS mic k i completed \<and>
     ending_ok clock SEGMENT_SECONDS mic (next_clock k completed)
       (i + length (concat completed)) ending \<and>
     (ending \<noteq> EmptySegment \<longrightarrow>
        length (record_loop target session_dir SEGMENT_SECONDS clock mic k i segment_num budget)
          = Suc budget)"
proof (induction target session_dir SEGMENT_SECONDS clock mic k i segment_num budget
    rule: record_loop.induct)
  case (1 target session_dir SEGMENT_SECONDS clock mic k i segment_num budget)
  let ?run = "record_loop target session_dir SEGMENT_SECONDS clock mic k i segment_num budget"
  have final: "\<exists>completed ending.
     ?run = completed_events target session_dir segment_num completed @
       ending_events session_dir (segment_num + int (length completed)) ending \<and>
     completed_ok clock SEGMENT_SECONDS mic k i completed \<and>
     ending_ok clock SEGMENT_SECONDS mic (next_clock k completed)
       (i + length (concat completed)) ending \<and>
     (ending \<noteq> EmptySegment \<longrightarrow> length ?run = Suc budget)"
    if "?run = ending_events session_dir segment_num ending"
      and "ending_ok clock SEGMENT_SECONDS mic k i ending"
      and "ending \<noteq> EmptySegment \<longrightarrow> length ?run = Suc budget" for ending
  proof -
    have "?run = completed_events target session_dir segment_num [] @
       ending_events session_dir (segment_num + int (length ([]::string list list))) ending \<and>
     completed_ok clock SEGMENT_SECONDS mic k i [] \<and>
     ending_ok clock SEGMENT_SECONDS mic (next_clock k [])
       (i + length (concat ([]::string list list))) ending \<and>
     (ending \<noteq> EmptySegment \<longrightarrow> length ?run = Suc budget)"
      using that by simp
    then show ?thesis by blast
  qed
  show ?case
  proof (cases budget)
    case 0
    have r: "?run = ending_events session_dir segment_num BeforeAnnouncement"
      unfolding 0 by (simp add: record_loop.simps)
    show ?thesis
    proof (rule final [OF r])
      show "ending_ok clock SEGMENT_SECONDS mic k i BeforeAnnouncement" by simp
      show "BeforeAnnouncement \<noteq> EmptySegment \<longrightarrow> length ?run = Suc budget"
        unfolding r using 0 by simp
    qed
  next
    case (Suc budget1)
    show ?thesis
    proof (cases "record_segment clock SEGMENT_SECONDS (clock k) (Suc k) mic i [] budget1")
      case (Interrupted frames)
      from record_segment_Interrupted [OF Interrupted] have
        f: "frames = map mic [i..<i + budget1]" and
        p: "\<forall>j<budget1. fl_sub (clock (Suc k + j)) (clock k) < SEGMENT_SECONDS" by simp_all
      have l: "length frames = budget1" unfolding f by simp
      have r: "?run = ending_events session_dir segment_num (FramesDropped frames)"
        unfolding Suc by (simp add: record_loop.simps [of _ _ _ _ _ _ _ _ "Suc budget1"] Interrupted)
      show ?thesis
      proof (rule final [OF r])
        show "ending_ok clock SEGMENT_SECONDS mic k i (FramesDropped frames)"
          using p f l by (simp add: reads_pass_def)
        show "FramesDropped frames \<noteq> EmptySegment \<longrightarrow> length ?run = Suc budget"
          unfolding r using l Suc by simp
      qed
    next
      case (Elapsed frames k' i' budget2)
      from record_segment_Elapsed [OF Elapsed] obtain n where
        f: "frames = map mic [i..<i + n]" and k': "k' = Suc (Suc k + n)" and i': "i' = i + n"
        and b: "budget1 = budget2 + n"
        and p: "\<forall>j<n. fl_sub (clock (Suc k + j)) (clock k) < SEGMENT_SECONDS"
        and e: "\<not> fl_sub (clock (Suc k + n)) (clock k) < SEGMENT_SECONDS" by auto
      have l: "length frames = n" unfolding f by simp
      have fm: "frames = map mic [i..<i + length frames]" using f l by simp
      have rp: "reads_pass clock SEGMENT_SECONDS k (length frames)"
        using p l by (simp add: reads_pass_def)
      have el: "elapsed_at clock SEGMENT_SECONDS k (length frames)"
        using e l by (simp add: elapsed_at_def)
      show ?thesis
      proof (cases "frames = []")
        case True
        have r: "?run = ending_events session_dir segment_num EmptySegment"
          unfolding Suc
          by (simp add: record_loop.simps [of _ _ _ _ _ _ _ _ "Suc budget1"] Elapsed True)
        show ?thesis
        proof (rule final [OF r])
          show "ending_ok clock SEGMENT_SECONDS mic k i EmptySegment"
            using el True by simp
          show "EmptySegment \<noteq> EmptySegment \<longrightarrow> length ?run = Suc budget" by simp
        qed
      next
        case False
        show ?thesis
        proof (cases budget2)
          case 0
          have r: "?run = ending_events session_dir segment_num (FramesDropped frames)"
            unfolding Suc
            by (simp add: record_loop.simps [of _ _ _ _ _ _ _ _ "Suc budget1"] Elapsed False 0)
          show ?thesis
          proof (rule final [OF r])
            show "ending_ok clock SEGMENT_SECONDS mic k i (FramesDropped frames)"
              using fm rp by simp
            show "FramesDropped frames \<noteq> EmptySegment \<longrightarrow> length ?run = Suc budget"
              unfolding r using l Suc b 0 by simp
          qed
        next
          case s2: (Suc budget3)
          show ?thesis
          proof (cases budget3)
            case 0
            have r: "?run = ending_events session_dir segment_num (SavedNotStarted frames)"
              unfolding Suc
              by (simp add: record_loop.simps [of _ _ _ _ _ _ _ _ "Suc budget1"] Elapsed False s2 0)
            show ?thesis
            proof (rule final [OF r])
              show "ending_ok clock SEGMENT_SECONDS mic k i (SavedNotStarted frames)"
                using fm rp el False by simp
              show "SavedNotStarted frames \<noteq> EmptySegment \<longrightarrow> length ?run = Suc budget"
                unfolding r using l Suc b s2 0 by simp
            qed
          next
            case s3: (Suc budget4)
            let ?rest = "record_loop target session_dir SEGMENT_SECONDS clock mic k' i'
              (segment_num + 1) budget4"
            from 1 [OF Suc Elapsed False s2 s3] obtain completed ending where
              c: "?rest = completed_events target session_dir (segment_num + 1) completed @
                ending_events session_dir (segment_num + 1 + int (length completed)) ending"
              and ok: "completed_ok clock SEGMENT_SECONDS mic k' i' completed"
              and eo: "ending_ok clock SEGMENT_SECONDS mic (next_clock k' completed)
                (i' + length (concat completed)) ending"
              and len: "ending \<noteq> EmptySegment \<longrightarrow> length ?rest = Suc budget4" by blast
            have u: "?run = segment_events target session_dir segment_num frames @ ?rest"
              unfolding Suc
              by (simp add: record_loop.simps [of _ _ _ _ _ _ _ _ "Suc budget1"] Elapsed False
                  s2 s3 segment_events_def)
            have a: "segment_num + 1 + int (length completed) =
              segment_num + int (length (frames # completed))" by simp
            have kk: "k' = k + length frames + 2" using k' l by simp
            have ii: "i' = i + length frames" using i' l by simp
            have r: "?run = completed_events target session_dir segment_num (frames # completed) @
              ending_events session_dir (segment_num + int (length (frames # completed))) ending"
              unfolding u c a by simp
            have ok': "completed_ok clock SEGMENT_SECONDS mic k i (frames # completed)"
              using False fm rp el ok unfolding kk ii by simp
            have eo': "ending_ok clock SEGMENT_SECONDS mic (next_clock k (frames # completed))
              (i + length (concat (frames # completed))) ending"
              using eo unfolding kk ii by (simp add: add.assoc)
            have "length ?run = length frames + 3 + length ?rest"
              unfolding u by (simp add: length_segment_events)
            then have len': "ending \<noteq> EmptySegment \<longrightarrow> length ?run = Suc budget"
              using len l Suc b s2 s3 by simp
            show ?thesis using r ok' eo' len' by blast
          qed
        qed
      qed
    qed
  qed
qed

lemma budget_7: "(7::nat) = Suc (Suc (Suc (Suc (Suc (Suc (Suc 0))))))"
  by simp

lemma budget_2: "(2::nat) = Suc (Suc 0)"
  by simp

lemma replicate_2: "replicate 2 c = [c, c]"
  by (simp add: numeral_2_eq_2)

lemma concat_concat_map: "concat (concat xss) = concat (map concat xss)"
  by (induction xss) simp_all

lemmas record_loop_eval =
  record_loop.simps example_mic_def segment_wav_def format_03d_def decimal_small digit_char_def
  replicate_2 fl_sub_def round_double_numeral round_double_0

text \<open>
  Claim C7, as amended.  Every run of the recording loop is a sequence of completed
  segments followed by one ending.  A completed segment is its announcement, the reads of
  its frames, the write of its WAV file with exactly those frames and, directly after it,
  the start of its thread; it has at least one frame, its frames were read while the
  elapsed time was below the segment duration, and it was saved when the elapsed time had
  reached it.  The ending is the interrupt before an announcement, the interrupt while a
  segment is recorded or before it is saved (the frames read are dropped: neither written
  nor processed), the interrupt after the save and before the start of the thread, or the
  \<open>break\<close> on a segment with no frame.  The interrupt comes after exactly the given number of
  effects.  All audio read is in the WAV files except the frames dropped by the ending, and
  every start of a thread comes directly after the write of the WAV file it is given.
\<close>

theorem record_loop_saves_elapsed_segments:
  "\<exists>completed ending.
     record_loop target session_dir SEGMENT_SECONDS clock mic k i segment_num budget =
       completed_events target session_dir segment_num completed @
       ending_events session_dir (segment_num + int (length completed)) ending \<and>
     completed_ok clock SEGMENT_SECONDS mic k i completed \<and>
     ending_ok clock SEGMENT_SECONDS mic (next_clock k completed)
       (i + length (concat completed)) ending \<and>
     (ending \<noteq> EmptySegment \<longrightarrow>
        length (record_loop target session_dir SEGMENT_SECONDS clock mic k i segment_num budget)
          = Suc budget) \<and>
     wav_written (completed_events target session_dir segment_num completed) =
       map concat completed \<and>
     concat (stream_reads
        (record_loop target session_dir SEGMENT_SECONDS clock mic k i segment_num budget)) =
       concat (wav_written
        (record_loop target session_dir SEGMENT_SECONDS clock mic k i segment_num budget))
       @ concat (dropped_frames ending) \<and>
     (\<forall>pre tg f j post.
        record_loop target session_dir SEGMENT_SECONDS clock mic k i segment_num budget =
          pre @ ThreadStart tg f j # post \<longrightarrow>
        (\<exists>pre' bytes. pre = pre' @ [WavWrite f bytes]))"
proof -
  let ?run = "record_loop target session_dir SEGMENT_SECONDS clock mic k i segment_num budget"
  obtain completed ending where
    c: "?run = completed_events target session_dir segment_num completed @
       ending_events session_dir (segment_num + int (length completed)) ending"
    and ok: "completed_ok clock SEGMENT_SECONDS mic k i completed"
    and eo: "ending_ok clock SEGMENT_SECONDS mic (next_clock k completed)
       (i + length (concat completed)) ending"
    and len: "ending \<noteq> EmptySegment \<longrightarrow> length ?run = Suc budget"
    using record_loop_shape [of target session_dir SEGMENT_SECONDS clock mic k i segment_num budget]
    by blast
  have w: "wav_written (completed_events target session_dir segment_num completed) =
    map concat completed" by (rule wav_written_completed_events)
  have "concat (stream_reads ?run) =
    concat (map concat completed) @
    concat (stream_reads (ending_events session_dir (segment_num + int (length completed)) ending))"
    unfolding c by (simp add: stream_reads_append stream_reads_completed_events concat_concat_map)
  also have "\<dots> = concat (map concat completed) @
    (concat (wav_written (ending_events session_dir (segment_num + int (length completed)) ending))
     @ concat (dropped_frames ending))"
    unfolding stream_reads_ending ..
  also have "\<dots> = concat (wav_written ?run) @ concat (dropped_frames ending)"
    unfolding c by (simp add: wav_written_append wav_written_completed_events)
  finally have q: "concat (stream_reads ?run) =
    concat (wav_written ?run) @ concat (dropped_frames ending)" .
  have t: "\<exists>pre' bytes. pre = pre' @ [WavWrite f bytes]"
    if "?run = pre @ ThreadStart tg f j # post" for pre tg f j post
    using thread_start_after_save [OF that [unfolded c] no_thread_in_ending] .
  show ?thesis using c ok eo len w q t by blast
qed

theorem record_loop_saves_elapsed_segments_witness:
  "record_loop ''transcribe_segment'' ''dir'' 60 (\<lambda>k. 20 * real k) example_mic 0 0 1 7 =
     [Print (recording_line 1), StreamRead ''a'', StreamRead ''b'',
      WavWrite ''dir/segment_001.wav'' ''ab'',
      ThreadStart ''transcribe_segment'' ''dir/segment_001.wav'' 1,
      Print (recording_line 2), StreamRead ''c'', Print completed_line] \<and>
   (\<exists>pre' bytes.
      [Print (recording_line 1), StreamRead ''a'', StreamRead ''b'',
       WavWrite ''dir/segment_001.wav'' ''ab''] = pre' @ [WavWrite ''dir/segment_001.wav'' bytes])"
proof -
  have r: "record_loop ''transcribe_segment'' ''dir'' 60 (\<lambda>k. 20 * real k) example_mic 0 0 1 7 =
     [Print (recording_line 1), StreamRead ''a'', StreamRead ''b'',
      WavWrite ''dir/segment_001.wav'' ''ab'',
      ThreadStart ''transcribe_segment'' ''dir/segment_001.wav'' 1,
      Print (recording_line 2), StreamRead ''c'', Print completed_line]"
    unfolding budget_7 by (simp add: record_loop_eval)
  have h: "record_loop ''transcribe_segment'' ''dir'' 60 (\<lambda>k. 20 * real k) example_mic 0 0 1 7 =
     [Print (recording_line 1), StreamRead ''a'', StreamRead ''b'',
      WavWrite ''dir/segment_001.wav'' ''ab'']
     @ ThreadStart ''transcribe_segment'' ''dir/segment_001.wav'' 1 #
     [Print (recording_line 2), StreamRead ''c'', Print completed_line]"
    unfolding r by simp
  from record_loop_saves_elapsed_segments
    [of "''transcribe_segment''" "''dir''" 60 "\<lambda>k. 20 * real k" example_mic 0 0 1 7]
  have "\<forall>pre tg f j post.
      record_loop ''transcribe_segment'' ''dir'' 60 (\<lambda>k. 20 * real k) example_mic 0 0 1 7 =
        pre @ ThreadStart tg f j # post \<longrightarrow>
      (\<exists>pre' bytes. pre = pre' @ [WavWrite f bytes])" by blast
  with h have "\<exists>pre' bytes.
      [Print (recording_line 1), StreamRead ''a'', StreamRead ''b'',
       WavWrite ''dir/segment_001.wav'' ''ab''] = pre' @ [WavWrite ''dir/segment_001.wav'' bytes]"
    by blast
  with r show ?thesis by blast
qed

text \<open>
  Claim C7 as stated fails: with segments of 300 seconds, a clock that advances one second
  per reading and an interrupt after two effects, one chunk is read and no WAV file is
  written.
\<close>

theorem interrupted_segment_is_dropped:
  "record_loop ''transcribe_segment'' ''dir'' 300 (\<lambda>k. real k) example_mic 0 0 1 2 =
     [Print (recording_line 1), StreamRead ''a'', Print completed_line] \<and>
   stream_reads (record_loop ''transcribe_segment'' ''dir'' 300 (\<lambda>k. real k) example_mic 0 0 1 2)
     = [''a''] \<and>
   wav_written (record_loop ''transcribe_segment'' ''dir'' 300 (\<lambda>k. real k) example_mic 0 0 1 2)
     = []"
proof -
  have r: "record_loop ''transcribe_segment'' ''dir'' 300 (\<lambda>k. real k) example_mic 0 0 1 2 =
     [Print (recording_line 1), StreamRead ''a'', Print completed_line]"
    unfolding budget_2 by (simp add: record_loop_eval round_double_1)
  show ?thesis unfolding r by simp
qed

text \<open>
  Claim C6.  When \<open>HF_TOKEN\<close> is not set (or is empty), the run consists of the two
  progress lines, the error line and the four lines of instructions, and nothing else: it
  prints only, opens no stream, creates no directory, writes no file and reads no chunk.
  With a token, the session directory is created and the stream is opened.
\<close>

theorem missing_token_aborts_before_recording:
  "(hf_token w = None \<or> hf_token w = Some [] \<longrightarrow>
      record_and_transcribe_with_diarization model_size segment_minutes w =
        [Print (sym_cycle @ '' Using MLX Whisper '' @ apostrophe @ model_size @ apostrophe
                  @ '' (Apple Silicon optimized)...''),
         Print (sym_cycle @ '' Loading diarization model...''),
         Print (NL @ sym_cross @ '' ERROR: HuggingFace token not found!''),
         Print ''   1. Get token: https://huggingface.co/settings/tokens'',
         Print ''   2. Accept terms: https://huggingface.co/pyannote/speaker-diarization-3.1'',
         Print ''   3. Create a .env file in your project root with:'',
         Print (''      HF_TOKEN=your_token_here'' @ NL)] \<and>
      (\<forall>ev\<in>set (record_and_transcribe_with_diarization model_size segment_minutes w).
         \<exists>line. ev = Print line) \<and>
      OpenStream \<notin> set (record_and_transcribe_with_diarization model_size segment_minutes w) \<and>
      (\<forall>path. MakeDirs path
         \<notin> set (record_and_transcribe_with_diarization model_size segment_minutes w)) \<and>
      (\<forall>path contents. WriteFile path contents
         \<notin> set (record_and_transcribe_with_diarization model_size segment_minutes w)) \<and>
      stream_reads (record_and_transcribe_with_diarization model_size segment_minutes w) = [] \<and>
      wav_written (record_and_transcribe_with_diarization model_size segment_minutes w) = []) \<and>
   (\<forall>token. hf_token w = Some token \<and> token \<noteq> [] \<longrightarrow>
      OpenStream \<in> set (record_and_transcribe_with_diarization model_size segment_minutes w) \<and>
      MakeDirs (''transcriptions/session_'' @ session_timestamp w)
        \<in> set (record_and_transcribe_with_diarization model_size segment_minutes w))"
proof (intro conjI impI allI)
  assume a: "hf_token w = None \<or> hf_token w = Some []"
  show r: "record_and_transcribe_with_diarization model_size segment_minutes w =
        [Print (sym_cycle @ '' Using MLX Whisper '' @ apostrophe @ model_size @ apostrophe
                  @ '' (Apple Silicon optimized)...''),
         Print (sym_cycle @ '' Loading diarization model...''),
         Print (NL @ sym_cross @ '' ERROR: HuggingFace token not found!''),
         Print ''   1. Get token: https://huggingface.co/settings/tokens'',
         Print ''   2. Accept terms: https://huggingface.co/pyannote/speaker-diarization-3.1'',
         Print ''   3. Create a .env file in your project root with:'',
         Print (''      HF_TOKEN=your_token_here'' @ NL)]"
    using a by (auto simp: record_and_transcribe_with_diarization_def missing_token_report_def)
  show "\<forall>ev\<in>set (record_and_transcribe_with_diarization model_size segment_minutes w).
         \<exists>line. ev = Print line" unfolding r by simp
  show "OpenStream \<notin> set (record_and_transcribe_with_diarization model_size segment_minutes w)"
    unfolding r by simp
  show "MakeDirs path
         \<notin> set (record_and_transcribe_with_diarization model_size segment_minutes w)" for path
    unfolding r by simp
  show "WriteFile path contents
         \<notin> set (record_and_transcribe_with_diarization model_size segment_minutes w)"
    for path contents
    unfolding r by simp
  show "stream_reads (record_and_transcribe_with_diarization model_size segment_minutes w) = []"
    unfolding r by simp
  show "wav_written (record_and_transcribe_with_diarization model_size segment_minutes w) = []"
    unfolding r by simp
next
  fix token assume "hf_token w = Some token \<and> token \<noteq> []"
  then show "OpenStream \<in> set (record_and_transcribe_with_diarization model_size segment_minutes w)"
    and "MakeDirs (''transcriptions/session_'' @ session_timestamp w)
        \<in> set (record_and_transcribe_with_diarization model_size segment_minutes w)"
    by (simp_all add: record_and_transcribe_with_diarization_def Let_def)
qed

theorem missing_token_aborts_before_recording_witness:
  "record_and_transcribe_with_diarization ''base'' 5 (example_world\<lparr>hf_token := None\<rparr>) =
        [Print (sym_cycle @ '' Using MLX Whisper '' @ apostrophe @ ''base'' @ apostrophe
                  @ '' (Apple Silicon optimized)...''),
         Print (sym_cycle @ '' Loading diarization model...''),
         Print (NL @ sym_cross @ '' ERROR: HuggingFace token not found!''),
         Print ''   1. Get token: https://huggingface.co/settings/tokens'',
         Print ''   2. Accept terms: https://huggingface.co/pyannote/speaker-diarization-3.1'',
         Print ''   3. Create a .env file in your project root with:'',
         Print (''      HF_TOKEN=your_token_here'' @ NL)] \<and>
   OpenStream \<notin> set (record_and_transcribe_with_diarization ''base'' 5
                        (example_world\<lparr>hf_token := None\<rparr>)) \<and>
   OpenStream \<in> set (record_and_transcribe_with_diarization ''base'' 5 example_world) \<and>
   MakeDirs ''transcriptions/session_20250101_120000''
     \<in> set (record_and_transcribe_with_diarization ''base'' 5 example_world)"
proof -
  have h1: "hf_token (example_world\<lparr>hf_token := None\<rparr>) = None \<or>
            hf_token (example_world\<lparr>hf_token := None\<rparr>) = Some []" by simp
  have h2: "hf_token example_world = Some ''hf_abc'' \<and> ''hf_abc'' \<noteq> []"
    by (simp add: example_world_def)
  have s: "session_timestamp example_world = ''20250101_120000''"
    by (simp add: example_world_def)
  note a = missing_token_aborts_before_recording [of "example_world\<lparr>hf_token := None\<rparr>" "''base''" 5]
  note b = missing_token_aborts_before_recording [of example_world "''base''" 5]
  have b': "OpenStream \<in> set (record_and_transcribe_with_diarization ''base'' 5 example_world) \<and>
    MakeDirs (''transcriptions/session_'' @ session_timestamp example_world)
     \<in> set (record_and_transcribe_with_diarization ''base'' 5 example_world)"
    using b h2 by blast
  show ?thesis using a h1 b' unfolding s by simp
qed

section \<open>Properties of the batch script\<close>


end
